theory Spec2Isabelle
  imports Complex_Main "HOL-Library.Log_Nat" "HOL-Library.Word"
begin

section \<open>JavaScript numbers\<close>

text \<open>
  A JavaScript number is an IEEE 754 double: a finite value, one of the two infinities, or
  \<open>NaN\<close>. A finite value is the rational it denotes. The arithmetic operations compute
  the exact result and round it to the nearest double, ties to the even significand
  (\<open>fl\<close> below): 53 bits of significand, exponents from \<open>-1022\<close> to \<open>1023\<close>, gradual
  underflow with the spacing \<open>2^-1074\<close>, overflow to an infinity. The sign of zero is not
  modelled: no operation of the audit tells \<open>-0\<close> from \<open>0\<close>. The numbers handed to the
  audit are taken to be doubles.
\<close>

datatype jsnum = Num rat | PInf | NInf | NaN

text \<open>The binary exponent of a positive rational: \<open>2^e \<le> q < 2^(e+1)\<close> for \<open>e = ilog2 q\<close>.\<close>

definition ilog2 :: "rat \<Rightarrow> int" where
  "ilog2 q = (let (a, b) = quotient_of q; d = bitlen a - bitlen b
              in if 2 powi d \<le> q then d else d - 1)"

text \<open>The nearest integer, a tie going to the even one.\<close>

definition round_even :: "rat \<Rightarrow> int" where
  "round_even x = (let f = \<lfloor>x\<rfloor>; d = x - of_int f
     in if d < 1 / 2 then f else if 1 / 2 < d then f + 1 else if even f then f else f + 1)"

text \<open>The spacing of the doubles around a non-zero number.\<close>

definition quantum :: "rat \<Rightarrow> rat" where
  "quantum q = 2 powi (max (ilog2 \<bar>q\<bar>) (- 1022) - 52)"

text \<open>Rounding an exact result to a double.\<close>

definition fl :: "rat \<Rightarrow> jsnum" where
  "fl q = (if q = 0 then Num 0
           else let u = quantum q; r = of_int (round_even (\<bar>q\<bar> / u)) * u
                in if 2 powi 1024 \<le> r then (if 0 < q then PInf else NInf)
                   else Num (if 0 < q then r else - r))"

fun isFinite :: "jsnum \<Rightarrow> bool" where
  "isFinite (Num q) = True"
| "isFinite x = False"

fun js_sgn :: "jsnum \<Rightarrow> int" where
  "js_sgn (Num q) = (if q = 0 then 0 else if 0 < q then 1 else -1)"
| "js_sgn PInf = 1"
| "js_sgn NInf = -1"
| "js_sgn NaN = 0"

definition js_inf :: "int \<Rightarrow> jsnum" where
  "js_inf s = (if s = 0 then NaN else if 0 < s then PInf else NInf)"

fun js_neg :: "jsnum \<Rightarrow> jsnum" where
  "js_neg (Num q) = Num (- q)"
| "js_neg PInf = NInf"
| "js_neg NInf = PInf"
| "js_neg NaN = NaN"

fun js_add :: "jsnum \<Rightarrow> jsnum \<Rightarrow> jsnum" where
  "js_add (Num a) (Num b) = fl (a + b)"
| "js_add NaN y = NaN"
| "js_add x NaN = NaN"
| "js_add PInf NInf = NaN"
| "js_add NInf PInf = NaN"
| "js_add PInf y = PInf"
| "js_add NInf y = NInf"
| "js_add x PInf = PInf"
| "js_add x NInf = NInf"

definition js_sub :: "jsnum \<Rightarrow> jsnum \<Rightarrow> jsnum" where
  "js_sub x y = js_add x (js_neg y)"

fun js_mul :: "jsnum \<Rightarrow> jsnum \<Rightarrow> jsnum" where
  "js_mul (Num a) (Num b) = fl (a * b)"
| "js_mul NaN y = NaN"
| "js_mul x NaN = NaN"
| "js_mul x y = js_inf (js_sgn x * js_sgn y)"

fun js_div :: "jsnum \<Rightarrow> jsnum \<Rightarrow> jsnum" where
  "js_div (Num a) (Num b) = (if b = 0 then js_inf (js_sgn (Num a)) else fl (a / b))"
| "js_div NaN y = NaN"
| "js_div x NaN = NaN"
| "js_div (Num a) y = Num 0"
| "js_div x (Num b) = js_inf (js_sgn x * (if b < 0 then -1 else 1))"
| "js_div x y = NaN"

fun js_le :: "jsnum \<Rightarrow> jsnum \<Rightarrow> bool" where
  "js_le (Num a) (Num b) = (a \<le> b)"
| "js_le NaN y = False"
| "js_le x NaN = False"
| "js_le NInf y = True"
| "js_le x PInf = True"
| "js_le x y = False"

fun js_lt :: "jsnum \<Rightarrow> jsnum \<Rightarrow> bool" where
  "js_lt (Num a) (Num b) = (a < b)"
| "js_lt NaN y = False"
| "js_lt x NaN = False"
| "js_lt PInf y = False"
| "js_lt x NInf = False"
| "js_lt x y = True"

text \<open>\<open>Math.floor\<close> and \<open>Math.round\<close> (halves go up) leave non-finite values alone;
  on a double their result is an integer that is a double, so nothing is rounded.\<close>

fun Math_floor :: "jsnum \<Rightarrow> jsnum" where
  "Math_floor (Num q) = Num (of_int \<lfloor>q\<rfloor>)"
| "Math_floor x = x"

fun Math_round :: "jsnum \<Rightarrow> jsnum" where
  "Math_round (Num q) = Num (of_int \<lfloor>q + 1 / 2\<rfloor>)"
| "Math_round x = x"

text \<open>\<open>Math.max\<close> of any number of arguments: \<open>-Infinity\<close> for none, \<open>NaN\<close>
  as soon as one argument is \<open>NaN\<close>.\<close>

fun max2 :: "jsnum \<Rightarrow> jsnum \<Rightarrow> jsnum" where
  "max2 NaN y = NaN"
| "max2 x NaN = NaN"
| "max2 x y = (if js_le x y then y else x)"

definition Math_max :: "jsnum list \<Rightarrow> jsnum" where
  "Math_max xs = foldl max2 NInf xs"

text \<open>Truthiness of a number that may be absent (\<open>undefined\<close>), as \<open>||\<close> tests it.\<close>

fun truthy :: "jsnum option \<Rightarrow> bool" where
  "truthy None = False"
| "truthy (Some (Num q)) = (q \<noteq> 0)"
| "truthy (Some NaN) = False"
| "truthy (Some x) = True"

text \<open>\<open>x || d\<close> for such a number.\<close>

fun js_or :: "jsnum option \<Rightarrow> jsnum \<Rightarrow> jsnum" where
  "js_or None d = d"
| "js_or (Some x) d = (if truthy (Some x) then x else d)"

section \<open>Errors\<close>

text \<open>
  The codes of \<open>LighthouseError.errors\<close> that the audit names; every other code of that
  table is an \<open>OTHER_CODE\<close>. Built-in errors (\<open>TypeError\<close>, \<open>RangeError\<close>) have
  no \<open>code\<close> property.
\<close>

datatype lh_code = NO_SCREENSHOTS | SPEEDINDEX_OF_ZERO | NO_SPEEDLINE_FRAMES
  | INVALID_SPEEDLINE | OTHER_CODE string

datatype js_error = LighthouseError lh_code | TypeError string | RangeError string

fun code :: "js_error \<Rightarrow> lh_code option" where
  "code (LighthouseError c) = Some c"
| "code e = None"

section \<open>The nearest-neighbour scaler\<close>

definition NUMBER_OF_THUMBNAILS :: nat where
  "NUMBER_OF_THUMBNAILS = 10"

definition THUMBNAIL_WIDTH :: nat where
  "THUMBNAIL_WIDTH = 120"

text \<open>The parsed image of a frame: its dimensions and its RGBA bytes, row by row.\<close>

record imageData =
  width :: nat
  height :: nat
  data :: "8 word list"

text \<open>The object \<open>scaleImageToThumbnail\<close> returns. Its height is a JavaScript number:
  it is \<open>NaN\<close> for an image of width and height zero.\<close>

record thumbnailImageData =
  thumb_width :: nat
  thumb_height :: jsnum
  thumb_data :: "8 word list"

text \<open>\<open>new Uint8Array(n)\<close>: a zero-filled array; the length is truncated towards zero,
  \<open>NaN\<close> counts as zero, and a length that is negative, infinite or above \<open>2^53 - 1\<close> is a
  \<open>RangeError\<close>. (An engine's lower limit on the size of an allocation is not
  modelled.)\<close>

fun new_Uint8Array :: "jsnum \<Rightarrow> js_error + 8 word list" where
  "new_Uint8Array (Num q) =
     (if q \<le> - 1 \<or> 2 ^ 53 \<le> q then Inl (RangeError ''Invalid typed array length'')
      else Inr (replicate (nat \<lfloor>q\<rfloor>) 0))"
| "new_Uint8Array NaN = Inr []"
| "new_Uint8Array x = Inl (RangeError ''Invalid typed array length'')"

text \<open>A number used as the index of an array element: it names an element when it is a
  non-negative integer.\<close>

definition to_index :: "jsnum \<Rightarrow> nat option" where
  "to_index x =
     (case x of
        Num q \<Rightarrow> if 0 \<le> q \<and> of_int \<lfloor>q\<rfloor> = q then Some (nat \<lfloor>q\<rfloor>) else None
      | _ \<Rightarrow> None)"

text \<open>Reading past the end of the source bytes gives \<open>undefined\<close>, which a
  \<open>Uint8Array\<close> stores as 0; a write past the end of a typed array is dropped
  (as \<open>list_update\<close> does).\<close>

definition read_byte :: "8 word list \<Rightarrow> nat \<Rightarrow> 8 word" where
  "read_byte d p = (if p < length d then d ! p else 0)"

text \<open>\<open>data[k]\<close> for a number \<open>k\<close>: \<open>undefined\<close> again when \<open>k\<close> names no element.\<close>

definition read_at :: "8 word list \<Rightarrow> jsnum \<Rightarrow> 8 word" where
  "read_at d k = (case to_index k of Some p \<Rightarrow> read_byte d p | None \<Rightarrow> 0)"

text \<open>The number of turns of \<open>for (let j = 0; j < x; j++)\<close> for a bound that is not
  \<open>Infinity\<close> (with that bound the allocation before the loops has already thrown).\<close>

fun loop_count :: "jsnum \<Rightarrow> nat" where
  "loop_count (Num q) = nat \<lceil>q\<rceil>"
| "loop_count x = 0"

text \<open>The position in the source of the pixel that output pixel \<open>(i, j)\<close> copies:
  \<open>origX\<close>, \<open>origY\<close> and \<open>origPos\<close> of the loop body, in the arithmetic of doubles.\<close>

definition origPos :: "imageData \<Rightarrow> jsnum \<Rightarrow> nat \<Rightarrow> nat \<Rightarrow> jsnum" where
  "origPos imageData scaleFactor i j =
     (let origX = Math_floor (js_mul (Num (of_nat i)) scaleFactor);
          origY = Math_floor (js_mul (Num (of_nat j)) scaleFactor)
      in js_mul (js_add (js_mul origY (Num (of_nat (width imageData)))) origX) (Num 4))"

text \<open>The body of the two loops: the four channels of one pixel. The loop counters and
  \<open>outPos\<close> are integers below the length of the output, hence below \<open>2^53\<close>, where the
  arithmetic of doubles is exact: they are natural numbers here.\<close>

definition copy_pixel ::
  "imageData \<Rightarrow> jsnum \<Rightarrow> nat \<Rightarrow> nat \<Rightarrow> nat \<Rightarrow> 8 word list \<Rightarrow> 8 word list" where
  "copy_pixel imageData scaleFactor scaledWidth i j outPixels =
     (let origPos = origPos imageData scaleFactor i j;
          outPos = (j * scaledWidth + i) * 4
      in outPixels
           [outPos := read_at (data imageData) origPos,
            outPos + 1 := read_at (data imageData) (js_add origPos (Num 1)),
            outPos + 2 := read_at (data imageData) (js_add origPos (Num 2)),
            outPos + 3 := read_at (data imageData) (js_add origPos (Num 3))])"

definition inner_loop ::
  "imageData \<Rightarrow> jsnum \<Rightarrow> nat \<Rightarrow> nat \<Rightarrow> nat \<Rightarrow> 8 word list \<Rightarrow> 8 word list" where
  "inner_loop imageData scaleFactor scaledWidth n i outPixels =
     foldl (\<lambda>out j. copy_pixel imageData scaleFactor scaledWidth i j out) outPixels [0..<n]"

definition outer_loop ::
  "imageData \<Rightarrow> jsnum \<Rightarrow> nat \<Rightarrow> nat \<Rightarrow> 8 word list \<Rightarrow> 8 word list" where
  "outer_loop imageData scaleFactor scaledWidth n outPixels =
     foldl (\<lambda>out i. inner_loop imageData scaleFactor scaledWidth n i out) outPixels
       [0..<scaledWidth]"

definition scaleImageToThumbnail :: "imageData \<Rightarrow> js_error + thumbnailImageData" where
  "scaleImageToThumbnail imageData =
     (let scaledWidth = THUMBNAIL_WIDTH;
          scaleFactor = js_div (Num (of_nat (width imageData))) (Num (of_nat scaledWidth));
          scaledHeight = Math_floor (js_div (Num (of_nat (height imageData))) scaleFactor)
      in case new_Uint8Array (js_mul (js_mul (Num (of_nat scaledWidth)) scaledHeight) (Num 4)) of
           Inl e \<Rightarrow> Inl e
         | Inr outPixels \<Rightarrow>
             Inr \<lparr>thumb_width = scaledWidth, thumb_height = scaledHeight,
                  thumb_data = outer_loop imageData scaleFactor scaledWidth
                                 (loop_count scaledHeight) outPixels\<rparr>)"

text \<open>The byte written at position \<open>p\<close> of the output: channel \<open>p mod 4\<close> of the source
  pixel of output pixel \<open>p div 4\<close>. Used to state what the loops compute.\<close>

definition src_byte :: "imageData \<Rightarrow> jsnum \<Rightarrow> nat \<Rightarrow> nat \<Rightarrow> 8 word" where
  "src_byte imageData scaleFactor scaledWidth p =
     (let pos = origPos imageData scaleFactor (p div 4 mod scaledWidth) (p div 4 div scaledWidth)
      in read_at (data imageData)
           (if p mod 4 = 0 then pos else js_add pos (Num (of_nat (p mod 4)))))"

text \<open>The four channels of pixel \<open>(x, y)\<close> of a row-major RGBA buffer whose rows are
  \<open>w\<close> pixels wide.\<close>

definition pixel :: "8 word list \<Rightarrow> nat \<Rightarrow> nat \<Rightarrow> nat \<Rightarrow> 8 word list" where
  "pixel d w x y = map (\<lambda>c. read_byte d ((y * w + x) * 4 + c)) [0..<4]"

section \<open>The timeline\<close>

text \<open>
  A frame of the speedline, by the three methods the audit calls. Frames are objects:
  the timeline holds references, the store maps a reference to its frame, and the cache
  of the audit is keyed by reference (object identity). \<open>getParsedImage\<close> is taken to
  return the image: a failure to decode it is outside the model, and so is a failure of
  the encoder.
\<close>

record frame =
  getTimeStamp :: jsnum
  isProgressInterpolated :: bool
  getParsedImage :: imageData

type_synonym ref = nat

type_synonym store = "ref \<Rightarrow> frame"

text \<open>\<open>complete\<close> may be absent (\<open>undefined\<close>).\<close>

record speedline =
  frames :: "ref list"
  beginning :: jsnum
  complete :: "jsnum option"

datatype gatherMode = navigation | timespan | snapshot

section \<open>The audit product\<close>

record item =
  timing :: jsnum
  timestamp :: jsnum
  item_data :: string

record details =
  details_type :: string
  details_scale :: jsnum
  details_items :: "item list"

text \<open>An absent property of the product is \<open>None\<close>.\<close>

record product =
  score :: jsnum
  notApplicable :: "bool option"
  details :: "details option"

section \<open>Sampling the timeline\<close>

definition analyzedFrames :: "store \<Rightarrow> speedline \<Rightarrow> ref list" where
  "analyzedFrames H sl = filter (\<lambda>r. \<not> isProgressInterpolated (H r)) (frames sl)"

definition minimumTimelineDuration :: "jsnum option \<Rightarrow> jsnum" where
  "minimumTimelineDuration opt = js_or opt (Num 3000)"

definition maxFrameTime :: "store \<Rightarrow> speedline \<Rightarrow> jsnum" where
  "maxFrameTime H sl =
     js_or (complete sl)
       (Math_max (map (\<lambda>r. js_sub (getTimeStamp (H r)) (beginning sl)) (frames sl)))"

definition timelineEnd :: "store \<Rightarrow> speedline \<Rightarrow> jsnum option \<Rightarrow> jsnum" where
  "timelineEnd H sl opt = Math_max [maxFrameTime H sl, minimumTimelineDuration opt]"

definition targetTimestamp :: "speedline \<Rightarrow> jsnum \<Rightarrow> nat \<Rightarrow> jsnum" where
  "targetTimestamp sl te i =
     js_add (beginning sl)
       (js_div (js_mul te (Num (of_nat i))) (Num (of_nat NUMBER_OF_THUMBNAILS)))"

text \<open>The frame of bucket \<open>i\<close>; \<open>None\<close> is the \<open>null\<close> the variable starts with (or
  the \<open>undefined\<close> that indexing an empty array gives).\<close>

definition frameForTimestamp :: "store \<Rightarrow> ref list \<Rightarrow> jsnum \<Rightarrow> nat \<Rightarrow> ref option" where
  "frameForTimestamp H analyzed target i =
     (if i = NUMBER_OF_THUMBNAILS
      then (if analyzed = [] then None else Some (last analyzed))
      else foldl (\<lambda>sel r. if js_le (getTimeStamp (H r)) target then Some r else sel)
             None analyzed)"

section \<open>Building the filmstrip\<close>

text \<open>
  The encoder is outside the audit: \<open>enc t q\<close> stands for
  \<open>jpeg.encode(t, q).data.toString('base64')\<close>.
  The state of the loop is the cache and the thumbnails pushed so far. Beside it the
  model keeps a trace of the work done, in order: \<open>Scale r\<close> when the image of frame
  \<open>r\<close> is handed to \<open>scaleImageToThumbnail\<close>, \<open>Encode r\<close> when the scaled image
  is handed to the encoder. The trace is instrumentation (call counters) and survives a
  build that throws.
\<close>

type_synonym encoder = "thumbnailImageData \<Rightarrow> nat \<Rightarrow> string"

datatype event = Scale ref | Encode ref

record build_state =
  cachedThumbnails :: "ref \<rightharpoonup> string"
  thumbnails :: "item list"

text \<open>\<open>cachedThumbnails.get(frameForTimestamp)\<close>: \<open>null\<close> is never a key.\<close>

definition cache_get :: "(ref \<rightharpoonup> string) \<Rightarrow> ref option \<Rightarrow> string option" where
  "cache_get m k = (case k of None \<Rightarrow> None | Some r \<Rightarrow> m r)"

text \<open>The part of the loop body that gets the payload: from the cache when the cached
  string is truthy (present and not empty), else by scaling and encoding the frame's
  image. Calling a method of \<open>null\<close> is a \<open>TypeError\<close>.\<close>

definition get_base64Data ::
  "encoder \<Rightarrow> store \<Rightarrow> ref option \<Rightarrow> build_state \<Rightarrow> event list
     \<Rightarrow> (js_error + string \<times> build_state) \<times> event list" where
  "get_base64Data enc H selected st trace =
     (case cache_get (cachedThumbnails st) selected of
        Some (c # cs) \<Rightarrow> (Inr (c # cs, st), trace)
      | _ \<Rightarrow>
         (case selected of
            None \<Rightarrow> (Inl (TypeError ''Cannot read properties of null''), trace)
          | Some r \<Rightarrow>
             (case scaleImageToThumbnail (getParsedImage (H r)) of
                Inl e \<Rightarrow> (Inl e, trace @ [Scale r])
              | Inr thumbnailImageData \<Rightarrow>
                  (let base64Data = enc thumbnailImageData 90
                   in (Inr (base64Data,
                            st\<lparr>cachedThumbnails := (cachedThumbnails st)(r \<mapsto> base64Data)\<rparr>),
                       trace @ [Scale r, Encode r])))))"

text \<open>One turn of the loop over the buckets.\<close>

definition bucket ::
  "encoder \<Rightarrow> store \<Rightarrow> speedline \<Rightarrow> jsnum \<Rightarrow> ref list \<Rightarrow> build_state \<Rightarrow> event list \<Rightarrow> nat
     \<Rightarrow> (js_error + build_state) \<times> event list" where
  "bucket enc H sl te analyzed st trace i =
     (let target = targetTimestamp sl te i;
          selected = frameForTimestamp H analyzed target i
      in case get_base64Data enc H selected st trace of
           (Inl e, trace') \<Rightarrow> (Inl e, trace')
         | (Inr (base64Data, st'), trace') \<Rightarrow>
             (Inr (st'\<lparr>thumbnails := thumbnails st' @
                      [\<lparr>timing = Math_round (js_sub target (beginning sl)),
                        timestamp = js_mul target (Num 1000),
                        item_data = ''data:image/jpeg;base64,'' @ base64Data\<rparr>]\<rparr>),
              trace'))"

text \<open>The \<open>for\<close> loop over the buckets: it stops at the first bucket that throws.\<close>

fun buckets ::
  "encoder \<Rightarrow> store \<Rightarrow> speedline \<Rightarrow> jsnum \<Rightarrow> ref list \<Rightarrow> build_state \<Rightarrow> event list
     \<Rightarrow> nat list \<Rightarrow> (js_error + build_state) \<times> event list" where
  "buckets enc H sl te analyzed st trace [] = (Inr st, trace)"
| "buckets enc H sl te analyzed st trace (i # is) =
     (case bucket enc H sl te analyzed st trace i of
        (Inl e, trace') \<Rightarrow> (Inl e, trace')
      | (Inr st', trace') \<Rightarrow> buckets enc H sl te analyzed st' trace' is)"

text \<open>
  \<open>_audit\<close>, with the outcome of \<open>await Speedline.request(trace, context)\<close> as its input
  \<open>req\<close> (a thrown error or the speedline) and the option
  \<open>context.options.minimumTimelineDuration\<close> as \<open>opt\<close>. The result comes with the
  trace of the work done.
\<close>

definition underscore_audit_run ::
  "encoder \<Rightarrow> store \<Rightarrow> js_error + speedline \<Rightarrow> jsnum option
     \<Rightarrow> (js_error + product) \<times> event list" where
  "underscore_audit_run enc H req opt =
     (case req of
        Inl e \<Rightarrow> (Inl e, [])
      | Inr sl \<Rightarrow>
         (let analyzed = analyzedFrames H sl;
              te = timelineEnd H sl opt
          in if analyzed = [] \<or> \<not> isFinite te
             then (Inl (LighthouseError INVALID_SPEEDLINE), [])
             else
               (case buckets enc H sl te analyzed
                       \<lparr>cachedThumbnails = Map.empty, thumbnails = []\<rparr> []
                       [1..<Suc NUMBER_OF_THUMBNAILS] of
                  (Inl e, trace) \<Rightarrow> (Inl e, trace)
                | (Inr st, trace) \<Rightarrow>
                    (Inr \<lparr>score = Num 1, notApplicable = None,
                          details = Some \<lparr>details_type = ''filmstrip'', details_scale = te,
                                          details_items = thumbnails st\<rparr>\<rparr>,
                     trace))))"

definition underscore_audit ::
  "encoder \<Rightarrow> store \<Rightarrow> js_error + speedline \<Rightarrow> jsnum option \<Rightarrow> js_error + product" where
  "underscore_audit enc H req opt = fst (underscore_audit_run enc H req opt)"

section \<open>Classifying the failure\<close>

definition noFramesErrors :: "lh_code set" where
  "noFramesErrors = {NO_SCREENSHOTS, SPEEDINDEX_OF_ZERO, NO_SPEEDLINE_FRAMES, INVALID_SPEEDLINE}"

text \<open>\<open>noFramesErrors.has(err.code)\<close>; an error without a code is not in the set.\<close>

definition has_code :: "lh_code set \<Rightarrow> lh_code option \<Rightarrow> bool" where
  "has_code S c = (case c of None \<Rightarrow> False | Some k \<Rightarrow> k \<in> S)"

definition audit ::
  "encoder \<Rightarrow> store \<Rightarrow> js_error + speedline \<Rightarrow> jsnum option \<Rightarrow> gatherMode
     \<Rightarrow> js_error + product" where
  "audit enc H req opt mode =
     (case underscore_audit enc H req opt of
        Inr p \<Rightarrow> Inr p
      | Inl err \<Rightarrow>
          if has_code noFramesErrors (code err) \<and> mode = timespan
          then Inr \<lparr>score = Num 1, notApplicable = Some True, details = None\<rparr>
          else Inl err)"

section \<open>Example inputs\<close>

text \<open>A 4 by 4 image of 16 pixels of distinct colours: pixel \<open>k\<close> (row by row) has
  the channels \<open>4k, 4k+1, 4k+2, 4k+3\<close>.\<close>

definition raster4x4 :: imageData where
  "raster4x4 = \<lparr>width = 4, height = 4, data = map of_nat [0..<64]\<rparr>"

text \<open>A timeline of four frames, one every second from the beginning, the third
  interpolated; every frame has the same 240 by 2 image. The encoder of the example
  returns the same non-empty payload for every image.\<close>

definition example_image :: imageData where
  "example_image = \<lparr>width = 240, height = 2, data = replicate 1920 7\<rparr>"

definition example_store :: store where
  "example_store r =
     \<lparr>getTimeStamp = Num (of_nat r * 1000), isProgressInterpolated = (r = 2),
      getParsedImage = example_image\<rparr>"

definition example_speedline :: speedline where
  "example_speedline = \<lparr>frames = [0, 1, 2, 3], beginning = Num 0, complete = None\<rparr>"

definition example_encoder :: encoder where
  "example_encoder t q = ''/9j/''"

text \<open>The same frames for a page that is complete after 3 ms; it is used with a minimum
  timeline duration of 5 ms.\<close>

definition quick_speedline :: speedline where
  "quick_speedline = \<lparr>frames = [0, 1, 2, 3], beginning = Num 0, complete = Some (Num 3)\<rparr>"

text \<open>The frames of the first timeline, half a second apart.\<close>

definition half_second_store :: store where
  "half_second_store r =
     \<lparr>getTimeStamp = Num (of_nat r * 500), isProgressInterpolated = (r = 2),
      getParsedImage = example_image\<rparr>"

text \<open>Inputs on which the rounding of doubles shows: the doubles nearest to 0.1, to 300.1
  and to 1000.1; a timeline that begins at 0.1 with a frame at 0.1 and a frame at 300.1;
  and a timeline with the frames of the first one that begins at 1000.1 and is complete
  after 3005 ms.\<close>

definition tenth :: rat where
  "tenth = 3602879701896397 / 2 ^ 55"

definition three_hundred_tenth :: rat where
  "three_hundred_tenth = 2639707515964621 / 2 ^ 43"

definition thousand_tenth :: rat where
  "thousand_tenth = 8796972631510221 / 2 ^ 43"

definition tenth_store :: store where
  "tenth_store r =
     \<lparr>getTimeStamp = Num (if r = 0 then tenth else three_hundred_tenth),
      isProgressInterpolated = False, getParsedImage = example_image\<rparr>"

definition tenth_speedline :: speedline where
  "tenth_speedline = \<lparr>frames = [0, 1], beginning = Num tenth, complete = None\<rparr>"

definition late_speedline :: speedline where
  "late_speedline =
     \<lparr>frames = [0, 1, 2, 3], beginning = Num thousand_tenth, complete = Some (Num 3005)\<rparr>"

section \<open>Notions used to state the properties\<close>

text \<open>The target timestamp and the frame of bucket \<open>i\<close> of a timeline, as \<open>_audit\<close>
  computes them from the speedline and the option.\<close>

definition bucket_target :: "store \<Rightarrow> speedline \<Rightarrow> jsnum option \<Rightarrow> nat \<Rightarrow> jsnum" where
  "bucket_target H sl opt i = targetTimestamp sl (timelineEnd H sl opt) i"

definition bucket_frame :: "store \<Rightarrow> speedline \<Rightarrow> jsnum option \<Rightarrow> nat \<Rightarrow> ref option" where
  "bucket_frame H sl opt i =
     frameForTimestamp H (analyzedFrames H sl) (bucket_target H sl opt i) i"

text \<open>The frames of a list whose timestamp is at or before a target, in the order of the
  list.\<close>

definition frames_at_or_before :: "store \<Rightarrow> ref list \<Rightarrow> jsnum \<Rightarrow> ref list" where
  "frames_at_or_before H rs target = filter (\<lambda>r. js_le (getTimeStamp (H r)) target) rs"

text \<open>The timeline is in ascending order of timestamp.\<close>

definition ascending :: "store \<Rightarrow> ref list \<Rightarrow> bool" where
  "ascending H rs = sorted_wrt (\<lambda>a b. js_le (getTimeStamp (H a)) (getTimeStamp (H b))) rs"

text \<open>The dimensions a JPEG image can have: its header holds them in 16 bits. The frames
  of a trace are JPEG screenshots.\<close>

definition jpeg_sized :: "imageData \<Rightarrow> bool" where
  "jpeg_sized R \<longleftrightarrow> 1 \<le> width R \<and> width R \<le> 65535 \<and> height R \<le> 65535"

text \<open>The timings of the thumbnails of a result (none for an error or a result without
  details).\<close>

definition product_timings :: "js_error + product \<Rightarrow> jsnum list" where
  "product_timings res =
     (case res of
        Inl e \<Rightarrow> []
      | Inr p \<Rightarrow> (case details p of None \<Rightarrow> [] | Some d \<Rightarrow> map timing (details_items d)))"

text \<open>Invariants of the loop over the buckets. Every cached string is the encoding of
  the scaled image of its frame.\<close>

definition cache_sound :: "encoder \<Rightarrow> store \<Rightarrow> build_state \<Rightarrow> bool" where
  "cache_sound enc H st \<longleftrightarrow>
     (\<forall>r s. cachedThumbnails st r = Some s \<longrightarrow>
        (\<exists>t. scaleImageToThumbnail (getParsedImage (H r)) = Inr t \<and> s = enc t 90))"

text \<open>The encoder never returns the empty payload (the file it writes has at least a
  header).\<close>

definition never_empty :: "encoder \<Rightarrow> bool" where
  "never_empty enc \<longleftrightarrow> (\<forall>t. enc t 90 \<noteq> [])"

text \<open>The trace holds one \<open>Scale\<close> and one \<open>Encode\<close> for each cached frame and nothing
  else, and no cached string is empty.\<close>

definition trace_ok :: "build_state \<Rightarrow> event list \<Rightarrow> bool" where
  "trace_ok st trace \<longleftrightarrow>
     distinct trace
     \<and> set trace = (\<Union>r \<in> dom (cachedThumbnails st). {Scale r, Encode r})
     \<and> (\<forall>r. cachedThumbnails st r \<noteq> Some [])"

text \<open>The thumbnail that bucket \<open>i\<close> pushes when its frame is \<open>r\<close> and the scaled image
  of that frame is \<open>t\<close>.\<close>

definition thumbnail_item :: "encoder \<Rightarrow> speedline \<Rightarrow> jsnum \<Rightarrow> thumbnailImageData \<Rightarrow> item" where
  "thumbnail_item enc sl target t =
     \<lparr>timing = Math_round (js_sub target (beginning sl)),
      timestamp = js_mul target (Num 1000),
      item_data = ''data:image/jpeg;base64,'' @ enc t 90\<rparr>"

text \<open>What bucket \<open>i\<close> pushes on success: the thumbnail of its frame.\<close>

definition pushed :: "encoder \<Rightarrow> store \<Rightarrow> speedline \<Rightarrow> jsnum \<Rightarrow> ref list \<Rightarrow> nat \<Rightarrow> item \<Rightarrow> bool" where
  "pushed enc H sl te an i it \<longleftrightarrow>
     (\<exists>r t. frameForTimestamp H an (targetTimestamp sl te i) i = Some r
        \<and> scaleImageToThumbnail (getParsedImage (H r)) = Inr t
        \<and> it = thumbnail_item enc sl (targetTimestamp sl te i) t)"
section \<open>Properties of rounding\<close>

text \<open>The binary exponent.\<close>

lemma bitlen_pos: "0 < a \<Longrightarrow> 1 \<le> bitlen a"
  using bitlen_eq_zero_iff[of a] bitlen_nonneg[of a] by linarith

lemma bitlen_bounds_rat:
  assumes "0 < a"
  shows "(2::rat) powi (bitlen a - 1) \<le> of_int a" and "of_int a < (2::rat) powi bitlen a"
proof -
  from bitlen_pos[OF assms] have nn: "0 \<le> bitlen a - 1" "0 \<le> bitlen a" by simp_all
  from bitlen_bounds[OF assms] have lo: "2 ^ nat (bitlen a - 1) \<le> a" and hi: "a < 2 ^ nat (bitlen a)"
    by simp_all
  have "(2::rat) powi (bitlen a - 1) = of_int (2 ^ nat (bitlen a - 1))"
    using nn(1) by (simp add: power_int_nonneg_exp)
  also have "\<dots> \<le> of_int a" using lo by (simp only: of_int_le_iff)
  finally show "(2::rat) powi (bitlen a - 1) \<le> of_int a" .
  have "(of_int a :: rat) < of_int (2 ^ nat (bitlen a))"
    using hi by (simp only: of_int_less_iff)
  also have "\<dots> = (2::rat) powi bitlen a"
    using nn(2) by (simp add: power_int_nonneg_exp)
  finally show "of_int a < (2::rat) powi bitlen a" .
qed

lemma ilog2_bounds:
  assumes "0 < q"
  shows "2 powi ilog2 q \<le> q" and "q < 2 powi (ilog2 q + 1)"
proof -
  obtain a b where ab: "quotient_of q = (a, b)" by (cases "quotient_of q")
  have b: "0 < b" using quotient_of_denom_pos[OF ab] .
  have q: "q = of_int a / of_int b" using quotient_of_div[OF ab] .
  have a: "0 < a" using assms b q by (simp add: zero_less_divide_iff)
  define d where "d = bitlen a - bitlen b"
  have rb: "0 < (of_int b :: rat)" using b by simp
  have p2: "0 < (2::rat) powi n" for n by (rule zero_less_power_int) simp
  have "q < 2 powi bitlen a / of_int b"
    unfolding q using bitlen_bounds_rat(2)[OF a] rb by (simp add: divide_strict_right_mono)
  also have "\<dots> \<le> 2 powi bitlen a / 2 powi (bitlen b - 1)"
    using bitlen_bounds_rat(1)[OF b] p2[of "bitlen a"] p2[of "bitlen b - 1"] rb
    by (intro divide_left_mono mult_pos_pos) (simp_all add: less_imp_le)
  also have "\<dots> = 2 powi (bitlen a - (bitlen b - 1))"
    by (rule power_int_diff[symmetric]) simp
  also have "bitlen a - (bitlen b - 1) = d + 1"
    by (simp add: d_def)
  finally have up: "q < 2 powi (d + 1)" .
  have "d - 1 = (bitlen a - 1) - bitlen b"
    by (simp add: d_def)
  then have "(2::rat) powi (d - 1) = 2 powi ((bitlen a - 1) - bitlen b)"
    by (rule arg_cong)
  also have "\<dots> = 2 powi (bitlen a - 1) / 2 powi bitlen b"
    by (rule power_int_diff) simp
  also have "\<dots> \<le> of_int a / 2 powi bitlen b"
    using bitlen_bounds_rat(1)[OF a] p2 by (simp add: divide_right_mono less_imp_le)
  also have "\<dots> < of_int a / of_int b"
    using bitlen_bounds_rat(2)[OF b] a rb by (intro divide_strict_left_mono) simp_all
  finally have lo: "2 powi (d - 1) < q" unfolding q .
  have e: "ilog2 q = (if 2 powi d \<le> q then d else d - 1)"
    by (simp add: ilog2_def ab d_def Let_def)
  show "2 powi ilog2 q \<le> q"
    using lo unfolding e by (simp add: less_imp_le)
  show "q < 2 powi (ilog2 q + 1)"
    using up unfolding e by (auto simp: not_le)
qed

lemma ilog2_unique:
  assumes "2 powi e \<le> q" and "q < 2 powi (e + 1)"
  shows "ilog2 q = e"
proof -
  have "0 < (2::rat) powi e" by (rule zero_less_power_int) simp
  with assms(1) have q: "0 < q" by linarith
  have mono: "m < n" if "(2::rat) powi m < 2 powi n" for m n :: int
  proof (rule ccontr)
    assume "\<not> m < n"
    then have "(2::rat) powi n \<le> 2 powi m" by (intro power_int_increasing) simp_all
    with that show False by simp
  qed
  from ilog2_bounds[OF q] assms
  have "(2::rat) powi e < 2 powi (ilog2 q + 1)" "(2::rat) powi ilog2 q < 2 powi (e + 1)"
    by linarith+
  then have "e < ilog2 q + 1" "ilog2 q < e + 1" by (auto dest: mono)
  then show ?thesis by simp
qed


lemma round_even_error: "\<bar>of_int (round_even x) - x\<bar> \<le> 1 / 2"
proof -
  define f where "f = \<lfloor>x\<rfloor>"
  have b: "of_int f \<le> x" "x < of_int f + 1" unfolding f_def by linarith+
  consider "x - of_int f < 1 / 2" | "1 / 2 < x - of_int f" | "x - of_int f = 1 / 2"
    by linarith
  then show ?thesis
  proof cases
    case 1
    then have "round_even x = f" by (simp add: round_even_def f_def)
    with 1 b show ?thesis by simp
  next
    case 2
    then have "round_even x = f + 1" by (simp add: round_even_def f_def)
    with 2 b show ?thesis by simp
  next
    case 3
    then have "round_even x = f \<or> round_even x = f + 1"
      by (simp add: round_even_def f_def Let_def)
    with 3 b show ?thesis by auto
  qed
qed

lemma round_even_of_int [simp]: "round_even (of_int n) = n"
  by (simp add: round_even_def)

lemma round_even_nonneg: "0 \<le> x \<Longrightarrow> 0 \<le> round_even x"
  unfolding round_even_def Let_def by auto

lemma two_powi_pos [simp]: "0 < (2::rat) powi n"
  by (rule zero_less_power_int) simp

lemma two_powi_mono: "m \<le> n \<Longrightarrow> (2::rat) powi m \<le> 2 powi n"
  by (intro power_int_increasing) simp_all

lemma two_powi_less_cancel: "(2::rat) powi m < 2 powi n \<Longrightarrow> m < n"
proof (rule ccontr)
  assume "(2::rat) powi m < 2 powi n" "\<not> m < n"
  then show False using two_powi_mono[of n m] by simp
qed

lemma two_powi_Suc: "(2::rat) powi (n + 1) = 2 * 2 powi n"
  by (simp add: power_int_add)

lemma two_powi_pred: "(2::rat) powi (n - 1) = 2 powi n / 2"
  by (simp add: power_int_diff)

text \<open>The rounded magnitude of a non-zero number, and its distance from the number.\<close>

lemma quantum_error:
  assumes "q \<noteq> 0"
  defines "r \<equiv> of_int (round_even (\<bar>q\<bar> / quantum q)) * quantum q"
  shows "\<bar>r - \<bar>q\<bar>\<bar> \<le> quantum q / 2" and "0 \<le> r"
proof -
  have u: "0 < quantum q" by (simp add: quantum_def)
  have "\<bar>of_int (round_even (\<bar>q\<bar> / quantum q)) - \<bar>q\<bar> / quantum q\<bar> \<le> 1 / 2"
    by (rule round_even_error)
  then have "\<bar>of_int (round_even (\<bar>q\<bar> / quantum q)) - \<bar>q\<bar> / quantum q\<bar> * quantum q
      \<le> 1 / 2 * quantum q"
    using u by (intro mult_right_mono) simp_all
  moreover have "\<bar>of_int (round_even (\<bar>q\<bar> / quantum q)) - \<bar>q\<bar> / quantum q\<bar> * quantum q
      = \<bar>r - \<bar>q\<bar>\<bar>"
  proof -
    let ?m = "rat_of_int (round_even (\<bar>q\<bar> / quantum q))"
    have "\<bar>?m - \<bar>q\<bar> / quantum q\<bar> * quantum q = \<bar>(?m - \<bar>q\<bar> / quantum q) * quantum q\<bar>"
      using u by (simp only: abs_mult abs_of_pos)
    also have "(?m - \<bar>q\<bar> / quantum q) * quantum q = r - \<bar>q\<bar>"
      using u by (simp add: r_def left_diff_distrib)
    finally show ?thesis .
  qed
  ultimately show "\<bar>r - \<bar>q\<bar>\<bar> \<le> quantum q / 2" by simp
  have "0 \<le> round_even (\<bar>q\<bar> / quantum q)"
    using u by (intro round_even_nonneg) simp
  then show "0 \<le> r" using u by (simp add: r_def)
qed


lemma ilog2_less:
  assumes "0 < q" and "q < 2 powi n"
  shows "ilog2 q < n"
  using ilog2_bounds(1)[OF assms(1)] assms(2) by (intro two_powi_less_cancel) linarith

lemma ilog2_ge:
  assumes "2 powi n \<le> q"
  shows "n \<le> ilog2 q"
proof -
  have q: "0 < q" using assms two_powi_pos[of n] by linarith
  from ilog2_bounds(2)[OF q] assms have "(2::rat) powi n < 2 powi (ilog2 q + 1)" by linarith
  then have "n < ilog2 q + 1" by (rule two_powi_less_cancel)
  then show ?thesis by simp
qed

lemma quantum_half_le:
  assumes "q \<noteq> 0"
  shows "quantum q / 2 \<le> \<bar>q\<bar> / 2 ^ 53 + 1 / 2 ^ 1075"
    and "2 powi (- 1022) \<le> \<bar>q\<bar> \<Longrightarrow> quantum q / 2 \<le> \<bar>q\<bar> / 2 ^ 53"
proof -
  have q: "0 < \<bar>q\<bar>" using assms by simp
  define e where "e = ilog2 \<bar>q\<bar>"
  have le: "2 powi e \<le> \<bar>q\<bar>" unfolding e_def by (rule ilog2_bounds(1)[OF q])
  have norm: "quantum q / 2 \<le> \<bar>q\<bar> / 2 ^ 53" if "- 1022 \<le> e"
  proof -
    have "quantum q = 2 powi (e - 52)" using that by (simp add: quantum_def e_def max_def)
    also have "\<dots> = 2 powi e / 2 powi 52" by (rule power_int_diff) simp
    finally have "quantum q / 2 = 2 powi e / 2 ^ 53" by simp
    also have "\<dots> \<le> \<bar>q\<bar> / 2 ^ 53" using le by (simp add: divide_right_mono)
    finally show ?thesis .
  qed
  show "quantum q / 2 \<le> \<bar>q\<bar> / 2 ^ 53 + 1 / 2 ^ 1075"
  proof (cases "- 1022 \<le> e")
    case True
    from norm[OF True] show ?thesis by (rule order_trans) simp
  next
    case False
    then have "quantum q = 2 powi (- 1074)" by (simp add: quantum_def e_def max_def)
    also have "\<dots> = 1 / 2 ^ 1074" by (simp add: power_int_minus_divide)
    finally have "quantum q / 2 = 1 / 2 ^ 1075" by simp
    moreover have "0 \<le> \<bar>q\<bar> / 2 ^ 53" by simp
    ultimately show ?thesis by linarith
  qed
  show "quantum q / 2 \<le> \<bar>q\<bar> / 2 ^ 53" if "2 powi (- 1022) \<le> \<bar>q\<bar>"
    using norm ilog2_ge[OF that] by (simp add: e_def)
qed

lemma quantum_le_970:
  assumes "q \<noteq> 0" and "\<bar>q\<bar> < 2 powi 1023"
  shows "quantum q \<le> 2 powi 970"
proof -
  have "ilog2 \<bar>q\<bar> < 1023" using assms by (intro ilog2_less) simp_all
  then show ?thesis unfolding quantum_def by (intro two_powi_mono) simp
qed

text \<open>Rounding a number below \<open>2^1023\<close> in magnitude: no overflow, the sign is kept and the
  error is at most half the spacing.\<close>

lemma fl_finite:
  assumes "\<bar>q\<bar> < 2 powi 1023"
  obtains r where "fl q = Num r" and "\<bar>r - q\<bar> \<le> quantum q / 2"
    and "0 \<le> q \<Longrightarrow> 0 \<le> r" and "q \<le> 0 \<Longrightarrow> r \<le> 0"
proof (cases "q = 0")
  case True
  have "0 \<le> quantum q / 2" by (simp add: quantum_def)
  with True that[of 0] show ?thesis by (simp add: fl_def)
next
  case False
  define r where "r = of_int (round_even (\<bar>q\<bar> / quantum q)) * quantum q"
  from quantum_error[OF False] have err: "\<bar>r - \<bar>q\<bar>\<bar> \<le> quantum q / 2" and nn: "0 \<le> r"
    by (simp_all add: r_def)
  have "r \<le> \<bar>q\<bar> + quantum q / 2" using err by linarith
  also have "\<dots> < 2 powi 1023 + 2 powi 970"
    using assms quantum_le_970[OF False assms] two_powi_pos[of 970] by linarith
  also have "\<dots> \<le> 2 powi 1023 + 2 powi 1023"
    using two_powi_mono[of 970 1023] by simp
  also have "\<dots> = 2 powi (1023 + 1)" unfolding two_powi_Suc by simp
  finally have no: "\<not> 2 powi 1024 \<le> r" by simp
  have eq: "fl q = Num (if 0 < q then r else - r)"
    using False no by (simp add: fl_def Let_def r_def)
  show ?thesis
  proof (rule that[of "if 0 < q then r else - r"])
    show "fl q = Num (if 0 < q then r else - r)" by (rule eq)
    show "\<bar>(if 0 < q then r else - r) - q\<bar> \<le> quantum q / 2"
      using err False by (auto simp: abs_if split: if_splits)
    show "0 \<le> (if 0 < q then r else - r)" if "0 \<le> q" using that nn False by simp
    show "(if 0 < q then r else - r) \<le> 0" if "q \<le> 0" using that nn by simp
  qed
qed


lemma fl_unfold:
  assumes "q \<noteq> 0" and "r = of_int (round_even (\<bar>q\<bar> / quantum q)) * quantum q"
    and "\<not> 2 powi 1024 \<le> r"
  shows "fl q = Num (if 0 < q then r else - r)"
  using assms by (simp add: fl_def Let_def)

text \<open>A number with a significand below \<open>2^53\<close> and an exponent in range is a double:
  rounding leaves it alone.\<close>

lemma fl_exact:
  assumes q: "\<bar>q\<bar> = of_int m * 2 powi z" and m: "0 \<le> m" "m < 2 ^ 53"
    and z: "- 1074 \<le> z" "z \<le> 971"
  shows "fl q = Num q"
proof (cases "q = 0")
  case True
  then show ?thesis by (simp add: fl_def)
next
  case False
  then have pos: "0 < \<bar>q\<bar>" by simp
  have "rat_of_int m < of_int (2 ^ 53)" using m(2) by (simp only: of_int_less_iff)
  then have "rat_of_int m < 2 powi 53" by simp
  then have "\<bar>q\<bar> < 2 powi 53 * 2 powi z"
    unfolding q by (intro mult_strict_right_mono) simp_all
  also have "\<dots> = 2 powi (53 + z)" by (simp add: power_int_add)
  finally have lt: "\<bar>q\<bar> < 2 powi (53 + z)" .
  define e' where "e' = max (ilog2 \<bar>q\<bar>) (- 1022)"
  have "ilog2 \<bar>q\<bar> < 53 + z" using pos lt by (rule ilog2_less)
  then have e': "e' - 52 \<le> z" using z(1) by (simp add: e'_def)
  define k where "k = nat (z - (e' - 52))"
  have u: "quantum q = 2 powi (e' - 52)" by (simp add: quantum_def e'_def)
  have "(2::rat) powi z = 2 powi ((e' - 52) + int k)" using e' by (simp add: k_def)
  also have "\<dots> = 2 powi (e' - 52) * 2 ^ k" by (simp add: power_int_add)
  finally have split: "(2::rat) powi z = quantum q * 2 ^ k" by (simp add: u)
  have "\<bar>q\<bar> / quantum q = of_int m * 2 ^ k"
    unfolding q split using two_powi_pos[of "e' - 52"] by (simp add: u)
  also have "\<dots> = of_int (m * 2 ^ k)" by simp
  finally have "round_even (\<bar>q\<bar> / quantum q) = m * 2 ^ k"
    by (simp only: round_even_of_int)
  then have r: "of_int (round_even (\<bar>q\<bar> / quantum q)) * quantum q = \<bar>q\<bar>"
    unfolding q split by simp
  have "2 powi (53 + z) \<le> (2::rat) powi 1024" using z(2) by (intro two_powi_mono) simp
  with lt have "\<not> 2 powi 1024 \<le> \<bar>q\<bar>" by simp
  from fl_unfold[OF False r[symmetric] this] show ?thesis
    using False by (simp add: abs_if)
qed

lemma fl_of_int: "\<bar>n\<bar> < 2 ^ 53 \<Longrightarrow> fl (of_int n) = Num (of_int n)"
  by (rule fl_exact[where m = "\<bar>n\<bar>" and z = 0]) simp_all

lemma fl_of_nat: "n < 2 ^ 53 \<Longrightarrow> fl (of_nat n) = Num (of_nat n)"
  using fl_of_int[of "int n"] by simp

lemma fl_numeral [simp]: "numeral k < (2 ^ 53 :: int) \<Longrightarrow> fl (numeral k) = Num (numeral k)"
  using fl_of_int[of "numeral k"] by simp

lemma fl_0 [simp]: "fl 0 = Num 0"
  by (simp add: fl_def)

lemma fl_1 [simp]: "fl 1 = Num 1"
  using fl_of_int[of 1] by simp

lemma fl_neg: "fl (- q) = (case fl q of Num r \<Rightarrow> Num (- r) | PInf \<Rightarrow> NInf | NInf \<Rightarrow> PInf | NaN \<Rightarrow> NaN)"
  by (auto simp: fl_def quantum_def Let_def)

text \<open>Relative and absolute forms of the error bound.\<close>

lemma fl_rel:
  assumes "2 powi (- 1022) \<le> q" and "q \<le> 2 ^ 1000"
  obtains r where "fl q = Num r" and "q * (1 - 1 / 2 ^ 53) \<le> r" and "r \<le> q * (1 + 1 / 2 ^ 53)"
proof -
  have q: "0 < q" using assms(1) two_powi_pos[of "- 1022"] by linarith
  have "(2::rat) ^ 1000 < 2 ^ 1023" by (intro power_strict_increasing) simp_all
  then have "\<bar>q\<bar> < 2 powi 1023" using assms(2) q by simp
  from fl_finite[OF this] obtain r where r: "fl q = Num r" "\<bar>r - q\<bar> \<le> quantum q / 2"
    by blast
  have "quantum q / 2 \<le> \<bar>q\<bar> / 2 ^ 53"
    using quantum_half_le(2)[of q] q assms(1) by simp
  with r(2) q have "\<bar>r - q\<bar> \<le> q / 2 ^ 53" by simp
  then have "r - q \<le> q / 2 ^ 53" "q - r \<le> q / 2 ^ 53"
    by (simp_all only: abs_le_iff minus_diff_eq)
  note d = this
  have "q * (1 - 1 / 2 ^ 53) = q - q / 2 ^ 53"
    by (simp add: right_diff_distrib)
  also have "\<dots> \<le> r" using d(2) by linarith
  finally have lo: "q * (1 - 1 / 2 ^ 53) \<le> r" .
  have "r \<le> q + q / 2 ^ 53" using d(1) by linarith
  also have "\<dots> = q * (1 + 1 / 2 ^ 53)"
    by (simp add: distrib_left)
  finally have "r \<le> q * (1 + 1 / 2 ^ 53)" .
  note lo this
  with r(1) that show ?thesis by blast
qed

lemma fl_abs:
  assumes "\<bar>q\<bar> \<le> M" and "1 \<le> M" and "M \<le> 2 ^ 1000"
  obtains r where "fl q = Num r" and "\<bar>r - q\<bar> \<le> M / 2 ^ 52"
    and "0 \<le> q \<Longrightarrow> 0 \<le> r"
proof -
  have "(2::rat) ^ 1000 < 2 ^ 1023" by (intro power_strict_increasing) simp_all
  then have "\<bar>q\<bar> < 2 powi 1023" using assms(1,3) by simp
  from fl_finite[OF this] obtain r where r: "fl q = Num r" "\<bar>r - q\<bar> \<le> quantum q / 2"
    "0 \<le> q \<Longrightarrow> 0 \<le> r"
    by blast
  have "\<bar>r - q\<bar> \<le> M / 2 ^ 52"
  proof (cases "q = 0")
    case True
    with r(1) have "r = 0" by simp
    with True assms(2) show ?thesis by simp
  next
    case False
    have "(1::rat) / 2 ^ 1075 \<le> 1 / 2 ^ 53"
      by (intro divide_left_mono power_increasing) simp_all
    also have "\<dots> \<le> M / 2 ^ 53" using assms(2) by (simp add: divide_right_mono)
    finally have tiny: "(1::rat) / 2 ^ 1075 \<le> M / 2 ^ 53" .
    have "\<bar>q\<bar> / 2 ^ 53 \<le> M / 2 ^ 53" using assms(1) by (simp add: divide_right_mono)
    with quantum_half_le(1)[OF False] tiny r(2)
    have "\<bar>r - q\<bar> \<le> M / 2 ^ 53 + M / 2 ^ 53" by linarith
    also have "\<dots> = M / 2 ^ 52" by simp
    finally show ?thesis .
  qed
  with r that show ?thesis by blast
qed


lemma floor_divide_numeral_rat [simp]:
  "\<lfloor>numeral a / numeral b :: rat\<rfloor> = numeral a div numeral b"
  by (metis floor_divide_of_int_eq of_int_numeral)

lemma floor_one_divide_numeral_rat [simp]:
  "\<lfloor>1 / numeral b :: rat\<rfloor> = 1 div numeral b"
  by (metis floor_divide_of_int_eq of_int_1 of_int_numeral)

text \<open>Evaluating a rounding: the binade of the number is given, the significand is
  computed.\<close>

lemma fl_eqI:
  assumes "2 powi e \<le> q" and "q < 2 powi (e + 1)" and "- 1022 \<le> e" and "e \<le> 1022"
    and "round_even (q / 2 powi (e - 52)) = m"
  shows "fl q = Num (of_int m * 2 powi (e - 52))"
proof -
  have q: "0 < q" using assms(1) two_powi_pos[of e] by linarith
  then have aq: "\<bar>q\<bar> = q" by simp
  have e: "ilog2 q = e" using assms(1,2) by (rule ilog2_unique)
  have u: "quantum q = 2 powi (e - 52)"
    using assms(3) by (simp add: quantum_def aq e max_def)
  have "2 powi (e + 1) \<le> (2::rat) powi 1023" using assms(4) by (intro two_powi_mono) simp
  with assms(2) have "\<bar>q\<bar> < 2 powi 1023" using aq by linarith
  from fl_finite[OF this] obtain r where r: "fl q = Num r" by blast
  have "fl q \<noteq> PInf" using r by simp
  then have "\<not> 2 powi 1024 \<le> of_int (round_even (\<bar>q\<bar> / quantum q)) * quantum q"
    using q by (auto simp: fl_def Let_def split: if_splits)
  from fl_unfold[OF _ refl this] q show ?thesis
    by (simp add: u assms(5))
qed

lemma fl_tenth: "fl (1 / 10) = Num (3602879701896397 / 2 ^ 55)"
  by (rule fl_eqI[where e = "- 4" and m = 7205759403792794, THEN trans])
     (simp_all add: round_even_def)

lemma fl_tenth_plus_300: "fl (3602879701896397 / 2 ^ 55 + 300) = Num (2639707515964621 / 2 ^ 43)"
  by (rule fl_eqI[where e = 8 and m = 5279415031929242, THEN trans])
     (simp_all add: round_even_def)


lemma round_even_ge: "of_int n \<le> x \<Longrightarrow> n \<le> round_even x"
proof -
  assume "of_int n \<le> x"
  then have "n \<le> \<lfloor>x\<rfloor>" by (simp add: le_floor_iff)
  moreover have "\<lfloor>x\<rfloor> \<le> round_even x" by (simp add: round_even_def Let_def)
  ultimately show ?thesis by simp
qed

text \<open>Overflow: a magnitude of \<open>2^1024\<close> or more rounds to an infinity.\<close>

lemma fl_overflow:
  assumes "2 powi 1024 \<le> \<bar>q\<bar>"
  shows "fl q = (if 0 < q then PInf else NInf)"
proof -
  have q: "q \<noteq> 0" using assms two_powi_pos[of 1024] by auto
  define e where "e = ilog2 \<bar>q\<bar>"
  have e: "1024 \<le> e" unfolding e_def using assms by (rule ilog2_ge)
  have le: "2 powi e \<le> \<bar>q\<bar>" unfolding e_def using q by (intro ilog2_bounds(1)) simp
  have u: "quantum q = 2 powi (e - 52)" using e by (simp add: quantum_def e_def max_def)
  have "(2::rat) powi e = 2 powi ((e - 52) + 52)" by simp
  also have "\<dots> = 2 powi (e - 52) * 2 powi 52" by (rule power_int_add) simp
  finally have split: "(2::rat) powi e = quantum q * 2 ^ 52" by (simp add: u)
  have "rat_of_int (2 ^ 52) = 2 powi e / quantum q"
    unfolding split using two_powi_pos[of "e - 52"] by (simp add: u)
  also have "\<dots> \<le> \<bar>q\<bar> / quantum q"
    using le two_powi_pos[of "e - 52"] by (simp add: u divide_right_mono)
  finally have "2 ^ 52 \<le> round_even (\<bar>q\<bar> / quantum q)" by (rule round_even_ge)
  then have "rat_of_int (2 ^ 52) \<le> of_int (round_even (\<bar>q\<bar> / quantum q))"
    by (simp only: of_int_le_iff)
  then have "rat_of_int (2 ^ 52) * quantum q \<le> of_int (round_even (\<bar>q\<bar> / quantum q)) * quantum q"
    using two_powi_pos[of "e - 52"] by (intro mult_right_mono) (simp_all add: u)
  moreover have "rat_of_int (2 ^ 52) * quantum q = 2 powi e" unfolding split by simp
  moreover have "(2::rat) powi 1024 \<le> 2 powi e" using e by (rule two_powi_mono)
  ultimately have "2 powi 1024 \<le> of_int (round_even (\<bar>q\<bar> / quantum q)) * quantum q"
    by linarith
  then show ?thesis using q by (simp add: fl_def Let_def)
qed
section \<open>Properties of the scaler\<close>

lemma loop_count_ok: "x \<noteq> PInf \<Longrightarrow> js_lt (Num (of_nat j)) x \<longleftrightarrow> j < loop_count x"
proof (cases x)
  case (Num q)
  have "rat_of_nat j < q \<longleftrightarrow> int j < \<lceil>q\<rceil>"
    by (simp add: less_ceiling_iff)
  then show ?thesis using Num by (simp add: nat_less_iff zless_nat_eq_int_zless)
qed simp_all

text \<open>The byte that one turn of the loops leaves at a position of the output.\<close>

lemma copy_pixel_nth:
  assumes "p < length out" "(j * sw + i) * 4 + 3 < length out"
  shows "copy_pixel R sf sw i j out ! p =
     (if p div 4 = j * sw + i
      then read_at (data R)
             (if p mod 4 = 0 then origPos R sf i j
              else js_add (origPos R sf i j) (Num (of_nat (p mod 4))))
      else out ! p)"
proof (cases "p div 4 = j * sw + i")
  case True
  define k where "k = j * sw + i"
  define q0 where "q0 = origPos R sf i j"
  from True have "p div 4 = k" by (simp add: k_def)
  then have "(p = k * 4 \<and> p mod 4 = 0) \<or> (p = k * 4 + 1 \<and> p mod 4 = 1)
      \<or> (p = k * 4 + 2 \<and> p mod 4 = 2) \<or> (p = k * 4 + 3 \<and> p mod 4 = 3)"
    by presburger
  then consider "p = k * 4" "p mod 4 = 0" | "p = k * 4 + 1" "p mod 4 = 1"
    | "p = k * 4 + 2" "p mod 4 = 2" | "p = k * 4 + 3" "p mod 4 = 3"
    by auto
  then have "(out[k * 4 := read_at (data R) q0, k * 4 + 1 := read_at (data R) (js_add q0 (Num 1)),
      k * 4 + 2 := read_at (data R) (js_add q0 (Num 2)),
      k * 4 + 3 := read_at (data R) (js_add q0 (Num 3))]) ! p
     = read_at (data R) (if p mod 4 = 0 then q0 else js_add q0 (Num (of_nat (p mod 4))))"
    using assms unfolding k_def[symmetric] by cases simp_all
  then show ?thesis
    using True unfolding copy_pixel_def Let_def k_def q0_def by simp
next
  case False
  define k where "k = j * sw + i"
  from False have "p div 4 \<noteq> k" by (simp add: k_def)
  then have "p \<noteq> k * 4 \<and> p \<noteq> k * 4 + 1 \<and> p \<noteq> k * 4 + 2 \<and> p \<noteq> k * 4 + 3"
    by presburger
  then have "p \<noteq> (j * sw + i) * 4" "p \<noteq> (j * sw + i) * 4 + 1"
    "p \<noteq> (j * sw + i) * 4 + 2" "p \<noteq> (j * sw + i) * 4 + 3"
    by (simp_all add: k_def)
  then show ?thesis using False by (simp add: copy_pixel_def Let_def)
qed

lemma length_copy_pixel [simp]: "length (copy_pixel R sf sw i j out) = length out"
  by (simp add: copy_pixel_def Let_def)

lemma length_inner_loop [simp]: "length (inner_loop R sf sw n i out) = length out"
  unfolding inner_loop_def by (induction n) simp_all

lemma length_outer_loop [simp]: "length (outer_loop R sf sw n out) = length out"
proof -
  have "length (foldl (\<lambda>out i. inner_loop R sf sw n i out) out [0..<m]) = length out" for m
    by (induction m) simp_all
  then show ?thesis by (simp add: outer_loop_def)
qed

lemma row_column:
  fixes i sw k n :: nat
  assumes "i < sw"
  shows "(k = n * sw + i) \<longleftrightarrow> (k mod sw = i \<and> k div sw = n)"
proof
  assume k: "k = n * sw + i"
  have "(n * sw + i) mod sw = i" "(n * sw + i) div sw = n"
    using assms by simp_all
  then show "k mod sw = i \<and> k div sw = n" unfolding k by simp
next
  assume "k mod sw = i \<and> k div sw = n"
  then show "k = n * sw + i" using div_mult_mod_eq[of k sw] by simp
qed

lemma inner_loop_nth:
  assumes "i < sw" "length out = sw * m * 4" "n \<le> m" "p < length out"
  shows "inner_loop R sf sw n i out ! p =
     (if p div 4 mod sw = i \<and> p div 4 div sw < n then src_byte R sf sw p else out ! p)"
  using assms(3)
proof (induction n)
  case 0
  then show ?case by (simp add: inner_loop_def)
next
  case (Suc n)
  let ?prev = "inner_loop R sf sw n i out"
  have step: "inner_loop R sf sw (Suc n) i out = copy_pixel R sf sw i n ?prev"
    by (simp add: inner_loop_def)
  have "n * sw + i < sw * m"
  proof -
    have "n * sw + i < n * sw + sw" using assms(1) by simp
    also have "\<dots> = sw * Suc n" by simp
    also have "\<dots> \<le> sw * m" using Suc.prems by (intro mult_le_mono2) simp
    finally show ?thesis .
  qed
  then have bound: "(n * sw + i) * 4 + 3 < length ?prev"
    using assms(2) by simp
  show ?case
    unfolding step
    using copy_pixel_nth[of p ?prev n sw i R sf] bound assms(4) Suc
      row_column[OF assms(1), of "p div 4" n]
    by (auto simp: src_byte_def Let_def less_Suc_eq)
qed

lemma outer_loop_nth:
  assumes "0 < sw" "length out = sw * m * 4" "n \<le> m" "p < length out"
  shows "outer_loop R sf sw n out ! p =
     (if p div 4 div sw < n then src_byte R sf sw p else out ! p)"
proof -
  let ?run = "\<lambda>k. foldl (\<lambda>out i. inner_loop R sf sw n i out) out [0..<k]"
  have len: "length (?run k) = length out" for k
    by (induction k) simp_all
  have "k \<le> sw \<Longrightarrow> ?run k ! p =
      (if p div 4 mod sw < k \<and> p div 4 div sw < n then src_byte R sf sw p else out ! p)" for k
  proof (induction k)
    case 0
    then show ?case by simp
  next
    case (Suc k)
    have "?run (Suc k) ! p = inner_loop R sf sw n k (?run k) ! p"
      by simp
    also have "\<dots> = (if p div 4 mod sw = k \<and> p div 4 div sw < n then src_byte R sf sw p
                      else ?run k ! p)"
      using Suc.prems assms by (intro inner_loop_nth[where m = m]) (simp_all add: len)
    finally show ?case
      using Suc by (auto simp: less_Suc_eq)
  qed
  from this[of sw] show ?thesis
    using assms(1) by (simp add: outer_loop_def)
qed

lemma pixel_position:
  assumes "i < sw" "c < (4::nat)"
  shows "((j * sw + i) * 4 + c) div 4 = j * sw + i" "((j * sw + i) * 4 + c) mod 4 = c"
    "(j * sw + i) div sw = j" "(j * sw + i) mod sw = i"
proof -
  have "(k * 4 + c) div 4 = k" "(k * 4 + c) mod 4 = c" for k
    using assms(2) by presburger+
  then show "((j * sw + i) * 4 + c) div 4 = j * sw + i" "((j * sw + i) * 4 + c) mod 4 = c"
    by blast+
  show "(j * sw + i) div sw = j" "(j * sw + i) mod sw = i"
    using assms(1) by simp_all
qed

text \<open>Rounding a number of moderate size: the relative error is at most \<open>2^-53\<close>.\<close>

lemma fl_moderate:
  assumes "q = 0 \<or> 1 / 2 ^ 30 \<le> q" and "q \<le> 2 ^ 60"
  obtains r where "fl q = Num r" and "0 \<le> r"
    and "q * (1 - 1 / 2 ^ 53) \<le> r" and "r \<le> q * (1 + 1 / 2 ^ 53)"
proof (cases "q = 0")
  case True
  with that[of 0] show ?thesis by simp
next
  case False
  with assms(1) have q: "1 / 2 ^ 30 \<le> q" by simp
  have "(2::rat) powi (- 1022) \<le> 2 powi (- 30)" by (rule two_powi_mono) simp
  also have "\<dots> = 1 / 2 ^ 30" by (simp add: power_int_minus_divide)
  finally have lo: "2 powi (- 1022) \<le> q" using q by simp
  have "(2::rat) ^ 60 \<le> 2 ^ 1000" by (intro power_increasing) simp_all
  with assms(2) have hi: "q \<le> 2 ^ 1000" by simp
  from fl_rel[OF lo hi] obtain r where r: "fl q = Num r" "q * (1 - 1 / 2 ^ 53) \<le> r"
    "r \<le> q * (1 + 1 / 2 ^ 53)" by blast
  have "0 \<le> q * (1 - 1 / 2 ^ 53)" using q by simp
  with r that show ?thesis by simp
qed

text \<open>Sums and products of natural numbers below \<open>2^53\<close> are exact.\<close>

lemma js_mul_nat:
  "a * b < 2 ^ 53 \<Longrightarrow> js_mul (Num (of_nat a)) (Num (of_nat b)) = Num (of_nat (a * b))"
  using fl_of_nat[of "a * b"] by simp

lemma js_add_nat:
  "a + b < 2 ^ 53 \<Longrightarrow> js_add (Num (of_nat a)) (Num (of_nat b)) = Num (of_nat (a + b))"
  using fl_of_nat[of "a + b"] by simp

lemma Math_floor_nat [simp]: "Math_floor (Num (of_nat n)) = Num (of_nat n)"
  by simp

lemma read_at_nat: "read_at d (Num (of_nat n)) = read_byte d n"
  by (simp add: read_at_def to_index_def)

lemma loop_count_nat [simp]: "loop_count (Num (of_nat n)) = n"
  by simp

lemma new_Uint8Array_nat:
  "n < 2 ^ 53 \<Longrightarrow> new_Uint8Array (Num (of_nat n)) = Inr (replicate n 0)"
proof -
  assume "n < 2 ^ 53"
  then have "rat_of_nat n < of_nat (2 ^ 53)" by (simp only: of_nat_less_iff)
  then have "\<not> (2::rat) ^ 53 \<le> of_nat n" by simp
  moreover have "\<not> rat_of_nat n \<le> - 1" by (simp add: not_le) 
  ultimately show ?thesis by simp
qed


text \<open>The scale factor of an image at most 65535 pixels wide, and its division into
  the height.\<close>

lemma scaleFactor_bounds:
  fixes w :: nat
  assumes "1 \<le> w" "w \<le> 65535"
  obtains s where "js_div (Num (of_nat w)) (Num 120) = Num s"
    and "of_nat w / 120 * (1 - 1 / 2 ^ 53) \<le> s" and "s \<le> of_nat w / 120 * (1 + 1 / 2 ^ 53)"
    and "1 / 128 \<le> s" and "s \<le> 1024"
proof -
  define q :: rat where "q = of_nat w / 120"
  have w: "1 \<le> rat_of_nat w" "rat_of_nat w \<le> 65535"
    using assms of_nat_mono[of w 65535, where 'a = rat] by simp_all
  have q: "1 / 120 \<le> q" "q \<le> 65535 / 120" using w by (simp_all add: q_def)
  have "q = 0 \<or> 1 / 2 ^ 30 \<le> q" using q(1) by simp
  moreover have "q \<le> 2 ^ 60" using q(2) by simp
  ultimately obtain s where s: "fl q = Num s" "q * (1 - 1 / 2 ^ 53) \<le> s"
    "s \<le> q * (1 + 1 / 2 ^ 53)"
    by (rule fl_moderate)
  have "1 / 128 \<le> 1 / 120 * (1 - 1 / 2 ^ 53 :: rat)" by simp
  also have "\<dots> \<le> q * (1 - 1 / 2 ^ 53)" using q(1) by (intro mult_right_mono) simp_all
  finally have lo: "1 / 128 \<le> s" using s(2) by simp
  have "q * (1 + 1 / 2 ^ 53) \<le> 65535 / 120 * (1 + 1 / 2 ^ 53)"
    using q(2) by (intro mult_right_mono) simp_all
  also have "\<dots> \<le> 1024" by simp
  finally have hi: "s \<le> 1024" using s(3) by simp
  have "js_div (Num (of_nat w)) (Num 120) = Num s" using s(1) by (simp add: q_def)
  then show ?thesis using s(2,3) lo hi that unfolding q_def by blast
qed

lemma scaledHeight_bounds:
  fixes h :: nat
  assumes "h \<le> 65535" "1 / 128 \<le> s" "s \<le> 1024"
  obtains k where "Math_floor (js_div (Num (of_nat h)) (Num s)) = Num (of_nat k)"
    and "of_nat k \<le> of_nat h / s * (1 + 1 / 2 ^ 53)" and "k < 2 ^ 24"
proof -
  define q :: rat where "q = of_nat h / s"
  have s: "0 < s" using assms(2) by simp
  have h: "rat_of_nat h \<le> 65535"
    using assms(1) of_nat_mono[of h 65535, where 'a = rat] by simp
  have q0: "q = 0 \<or> 1 / 2 ^ 30 \<le> q"
  proof (cases "h = 0")
    case True
    then show ?thesis by (simp add: q_def)
  next
    case False
    then have "1 \<le> rat_of_nat h" by simp
    then have "1 / 1024 \<le> rat_of_nat h / s"
      using s assms(3) by (intro frac_le) simp_all
    moreover have "1 / 2 ^ 30 \<le> (1 / 1024 :: rat)" by simp
    ultimately have "1 / 2 ^ 30 \<le> q" unfolding q_def by (rule order_trans[rotated])
    then show ?thesis ..
  qed
  have "rat_of_nat h / s \<le> 65535 / (1 / 128)"
    using h s assms(2) by (intro frac_le) simp_all
  then have q1: "q \<le> 8388480" by (simp add: q_def)
  then have "q \<le> 2 ^ 60" by simp
  with q0 obtain r where r: "fl q = Num r" "0 \<le> r" "r \<le> q * (1 + 1 / 2 ^ 53)"
    by (rule fl_moderate)
  define k where "k = nat \<lfloor>r\<rfloor>"
  have fr: "0 \<le> \<lfloor>r\<rfloor>" using r(2) by simp
  then have kr: "rat_of_nat k = of_int \<lfloor>r\<rfloor>" by (simp add: k_def)
  have "js_div (Num (of_nat h)) (Num s) = Num r" using r(1) s by (simp add: q_def)
  then have 1: "Math_floor (js_div (Num (of_nat h)) (Num s)) = Num (of_nat k)"
    by (simp add: kr)
  have "rat_of_nat k \<le> r" unfolding kr by simp
  with r(3) have 2: "rat_of_nat k \<le> q * (1 + 1 / 2 ^ 53)" by simp
  have "q * (1 + 1 / 2 ^ 53) \<le> 8388480 * (1 + 1 / 2 ^ 53)"
    using q1 by (intro mult_right_mono) simp_all
  also have "\<dots> < 2 ^ 24" by simp
  finally have "rat_of_nat k < 2 ^ 24" using 2 by simp
  then have "rat_of_nat k < of_nat (2 ^ 24)" by simp
  then have 3: "k < 2 ^ 24" by (simp only: of_nat_less_iff)
  from 1 2 3 that show ?thesis unfolding q_def by blast
qed


text \<open>The source column of an output column is inside the image, and so is the source row
  of an output row: the rounding errors are too small to push the floor over the edge.\<close>

lemma origX_bound:
  fixes w i :: nat
  assumes "1 \<le> w" "i < 120" "1 / 128 \<le> s" "s \<le> 1024"
    and "s \<le> of_nat w / 120 * (1 + 1 / 2 ^ 53)"
  obtains x where "Math_floor (js_mul (Num (of_nat i)) (Num s)) = Num (of_nat x)" and "x < w"
proof -
  define c :: rat where "c = 1 + 1 / 2 ^ 53"
  define q where "q = of_nat i * s"
  have c: "0 < c" "119 / 120 * c * c < 1" by (simp_all add: c_def)
  have s: "0 < s" using assms(3) by simp
  have w: "0 < rat_of_nat w" using assms(1) by simp
  have i: "rat_of_nat i \<le> 119" using assms(2) of_nat_mono[of i 119, where 'a = rat] by simp
  have q0: "q = 0 \<or> 1 / 2 ^ 30 \<le> q"
  proof (cases "i = 0")
    case True
    then show ?thesis by (simp add: q_def)
  next
    case False
    then have "1 \<le> rat_of_nat i" by simp
    then have "1 * s \<le> rat_of_nat i * s" using s by (intro mult_right_mono) simp_all
    with assms(3) have "1 / 128 \<le> q" unfolding q_def by linarith
    moreover have "1 / 2 ^ 30 \<le> (1 / 128 :: rat)" by simp
    ultimately have "1 / 2 ^ 30 \<le> q" by (rule order_trans[rotated])
    then show ?thesis ..
  qed
  have q1: "q \<le> 119 * s" unfolding q_def using i s by (intro mult_right_mono) simp_all
  also have "\<dots> \<le> 119 * 1024" using assms(4) by simp
  finally have "q \<le> 2 ^ 60" by simp
  with q0 obtain r where r: "fl q = Num r" "0 \<le> r" "r \<le> q * (1 + 1 / 2 ^ 53)"
    by (rule fl_moderate)
  define x where "x = nat \<lfloor>r\<rfloor>"
  have xr: "rat_of_nat x = of_int \<lfloor>r\<rfloor>" using r(2) by (simp add: x_def)
  have 1: "Math_floor (js_mul (Num (of_nat i)) (Num s)) = Num (of_nat x)"
    using r(1) by (simp add: q_def xr)
  have "rat_of_nat x \<le> r" unfolding xr by simp
  also have "\<dots> \<le> q * c" using r(3) by (simp add: c_def)
  also have "\<dots> \<le> 119 * s * c" using q1 c(1) by (intro mult_right_mono) simp_all
  also have "\<dots> \<le> 119 * (of_nat w / 120 * c) * c"
    using assms(5) c(1) unfolding c_def[symmetric]
    by (intro mult_right_mono mult_left_mono) simp_all
  also have "\<dots> = of_nat w * (119 / 120 * c * c)" by simp
  also have "\<dots> < of_nat w * 1" using w c(2) by (intro mult_strict_left_mono)
  finally have "rat_of_nat x < of_nat w" by simp
  then have "x < w" by (simp only: of_nat_less_iff)
  with 1 that show ?thesis by blast
qed

lemma origY_bound:
  fixes h j k :: nat
  assumes "h \<le> 65535" "j < k" "1 / 128 \<le> s" "s \<le> 1024" "k < 2 ^ 24"
    and "of_nat k \<le> of_nat h / s * (1 + 1 / 2 ^ 53)"
  obtains y where "Math_floor (js_mul (Num (of_nat j)) (Num s)) = Num (of_nat y)" and "y < h"
proof -
  define c :: rat where "c = 1 + 1 / 2 ^ 53"
  define q where "q = of_nat j * s"
  have c: "0 < c" "1 \<le> c" "65535 * (c * c - 1) < 1 / 128" "0 \<le> c * c - 1"
    by (simp_all add: c_def)
  have s: "0 < s" using assms(3) by simp
  have h: "rat_of_nat h \<le> 65535" using assms(1) of_nat_mono[of h 65535, where 'a = rat] by simp
  have "Suc j \<le> k" using assms(2) by simp
  then have "rat_of_nat (Suc j) \<le> of_nat k" by (simp only: of_nat_le_iff)
  then have "rat_of_nat j + 1 \<le> of_nat h / s * c" using assms(6) by (simp add: c_def)
  then have "(rat_of_nat j + 1) * s \<le> of_nat h / s * c * s"
    using s by (intro mult_right_mono) simp_all
  then have js: "q \<le> of_nat h * c - s" using s by (simp add: q_def algebra_simps)
  have j: "rat_of_nat j \<le> 2 ^ 24"
    using assms(2,5) of_nat_mono[of j "2 ^ 24", where 'a = rat] by simp
  have q0: "q = 0 \<or> 1 / 2 ^ 30 \<le> q"
  proof (cases "j = 0")
    case True
    then show ?thesis by (simp add: q_def)
  next
    case False
    then have "1 \<le> rat_of_nat j" by simp
    then have "1 * s \<le> rat_of_nat j * s" using s by (intro mult_right_mono) simp_all
    with assms(3) have "1 / 128 \<le> q" unfolding q_def by linarith
    moreover have "1 / 2 ^ 30 \<le> (1 / 128 :: rat)" by simp
    ultimately have "1 / 2 ^ 30 \<le> q" by (rule order_trans[rotated])
    then show ?thesis ..
  qed
  have "q \<le> 2 ^ 24 * 1024" unfolding q_def using j assms(4) s by (intro mult_mono) simp_all
  then have "q \<le> 2 ^ 60" by simp
  with q0 obtain r where r: "fl q = Num r" "0 \<le> r" "r \<le> q * (1 + 1 / 2 ^ 53)"
    by (rule fl_moderate)
  define y where "y = nat \<lfloor>r\<rfloor>"
  have yr: "rat_of_nat y = of_int \<lfloor>r\<rfloor>" using r(2) by (simp add: y_def)
  have 1: "Math_floor (js_mul (Num (of_nat j)) (Num s)) = Num (of_nat y)"
    using r(1) by (simp add: q_def yr)
  have "of_nat h * (c * c - 1) \<le> 65535 * (c * c - 1)"
    using h c(4) by (intro mult_right_mono) simp_all
  also have "\<dots> < 1 / 128" by (rule c(3))
  also have "\<dots> \<le> s * 1" using assms(3) by simp
  also have "\<dots> \<le> s * c" using s c(2) by (intro mult_left_mono) simp_all
  finally have edge: "of_nat h * c * c - s * c < of_nat h" by (simp add: algebra_simps)
  have "rat_of_nat y \<le> r" unfolding yr by simp
  also have "\<dots> \<le> q * c" using r(3) by (simp add: c_def)
  also have "\<dots> \<le> (of_nat h * c - s) * c" using js c(1) by (intro mult_right_mono) simp_all
  also have "\<dots> = of_nat h * c * c - s * c" by (simp add: algebra_simps)
  also have "\<dots> < of_nat h" by (rule edge)
  finally have "y < h" by (simp only: of_nat_less_iff)
  with 1 that show ?thesis by blast
qed


text \<open>The scaler on an image whose scale factor and scaled height are known.\<close>

lemma scale_result:
  assumes sf: "js_div (Num (of_nat (width R))) (Num 120) = Num s"
    and sh: "Math_floor (js_div (Num (of_nat (height R))) (Num s)) = Num (of_nat k)"
    and k: "k < 2 ^ 24"
  shows "scaleImageToThumbnail R =
     Inr \<lparr>thumb_width = 120, thumb_height = Num (of_nat k),
          thumb_data = outer_loop R (Num s) 120 k (replicate (120 * k * 4) 0)\<rparr>"
proof -
  have "120 * k < 120 * 2 ^ 24" using k by simp
  also have "\<dots> < (2::nat) ^ 53" by simp
  finally have 1: "js_mul (Num (of_nat 120)) (Num (of_nat k)) = Num (of_nat (120 * k))"
    by (rule js_mul_nat)
  have "120 * k * 4 < 120 * 2 ^ 24 * 4" using k by simp
  also have "\<dots> < (2::nat) ^ 53" by simp
  finally have len: "120 * k * 4 < (2::nat) ^ 53" .
  then have 2: "js_mul (Num (of_nat (120 * k))) (Num (of_nat 4)) = Num (of_nat (120 * k * 4))"
    by (rule js_mul_nat)
  have alloc: "new_Uint8Array (js_mul (js_mul (Num (of_nat 120)) (Num (of_nat k))) (Num 4))
      = Inr (replicate (120 * k * 4) 0)"
    using 2 new_Uint8Array_nat[OF len] unfolding 1 by simp
  have sf': "js_div (Num (of_nat (width R))) (Num (of_nat 120)) = Num s"
    using sf by simp
  show ?thesis
    unfolding scaleImageToThumbnail_def Let_def THUMBNAIL_WIDTH_def sf' sh alloc
    by simp
qed

lemma origPos_exact:
  assumes "Math_floor (js_mul (Num (of_nat i)) sf) = Num (of_nat x)"
    and "Math_floor (js_mul (Num (of_nat j)) sf) = Num (of_nat y)"
    and "(y * width R + x) * 4 + 3 < 2 ^ 53" and "c < 4"
  shows "(if c = 0 then origPos R sf i j else js_add (origPos R sf i j) (Num (of_nat c)))
     = Num (of_nat ((y * width R + x) * 4 + c))"
proof -
  have b: "y * width R < 2 ^ 53" "y * width R + x < 2 ^ 53" "(y * width R + x) * 4 < 2 ^ 53"
    "(y * width R + x) * 4 + c < 2 ^ 53"
    using assms(3,4) by simp_all
  have "js_mul (Num (of_nat (y * width R + x))) (Num (of_nat 4))
      = Num (of_nat ((y * width R + x) * 4))"
    using b(3) by (rule js_mul_nat)
  then have "origPos R sf i j = Num (of_nat ((y * width R + x) * 4))"
    unfolding origPos_def Let_def assms(1,2) js_mul_nat[OF b(1)] js_add_nat[OF b(2)] by simp
  then show ?thesis using js_add_nat[OF b(4)] by simp
qed

lemma scale_pixel:
  assumes t: "scaleImageToThumbnail R = Inr t"
    and sf: "js_div (Num (of_nat (width R))) (Num 120) = Num s"
    and sh: "Math_floor (js_div (Num (of_nat (height R))) (Num s)) = Num (of_nat k)"
    and k: "k < 2 ^ 24"
    and i: "i < 120" and j: "j < k" and c: "c < 4"
    and x: "Math_floor (js_mul (Num (of_nat i)) (Num s)) = Num (of_nat x)" "x < width R"
    and y: "Math_floor (js_mul (Num (of_nat j)) (Num s)) = Num (of_nat y)" "y < height R"
    and len: "length (data R) = width R * height R * 4" "length (data R) < 2 ^ 53"
  shows "thumb_data t ! ((j * 120 + i) * 4 + c) = data R ! ((y * width R + x) * 4 + c)"
    and "(j * 120 + i) * 4 + c < length (thumb_data t)"
    and "(y * width R + x) * 4 + c < length (data R)"
proof -
  define p where "p = (j * 120 + i) * 4 + c"
  have td: "thumb_data t = outer_loop R (Num s) 120 k (replicate (120 * k * 4) 0)"
    using scale_result[OF sf sh k] t by simp
  have pos: "p div 4 div 120 = j" "p div 4 mod 120 = i" "p mod 4 = c"
    using pixel_position[OF i c, of j] by (simp_all add: p_def)
  have "j * 120 + i < 120 * k"
  proof -
    have "j * 120 + i < (j + 1) * 120" using i by simp
    also have "\<dots> \<le> k * 120" using j by (intro mult_le_mono1) simp
    finally show ?thesis by simp
  qed
  then have p: "p < 120 * k * 4" using c by (simp add: p_def)
  then show "(j * 120 + i) * 4 + c < length (thumb_data t)"
    by (simp add: td p_def)
  have "y * width R + x < width R * height R"
  proof -
    have "y * width R + x < (y + 1) * width R" using x(2) by simp
    also have "\<dots> \<le> height R * width R" using y(2) by (intro mult_le_mono1) simp
    finally show ?thesis by (simp add: mult.commute)
  qed
  then have src: "(y * width R + x) * 4 + 3 < length (data R)"
    "(y * width R + x) * 4 + c < length (data R)"
    using c len(1) by simp_all
  then show "(y * width R + x) * 4 + c < length (data R)" by simp
  from src(1) len(2) have "(y * width R + x) * 4 + 3 < 2 ^ 53" by simp
  note pos_exact = origPos_exact[OF x(1) y(1) this c]
  have "thumb_data t ! p = src_byte R (Num s) 120 p"
    using outer_loop_nth[of 120 "replicate (120 * k * 4) 0" k k p R "Num s"] p j
    by (simp add: td pos)
  also have "\<dots> = read_at (data R) (Num (of_nat ((y * width R + x) * 4 + c)))"
    by (simp only: src_byte_def Let_def pos pos_exact)
  also have "\<dots> = data R ! ((y * width R + x) * 4 + c)"
    using src(2) by (simp only: read_at_nat read_byte_def if_True)
  finally show "thumb_data t ! ((j * 120 + i) * 4 + c) = data R ! ((y * width R + x) * 4 + c)"
    by (simp add: p_def)
qed

text \<open>
  C2. For an image of width \<open>w \<ge> 1\<close> and height \<open>h\<close>, neither above the 65535 pixels a
  JPEG image can have (its buffer holding \<open>w * h * 4\<close> bytes),
  \<open>scaleImageToThumbnail\<close> returns an image of width 120 and height
  \<open>floor (h / (w / 120))\<close>, and each channel \<open>c\<close> of each output pixel \<open>(i, j)\<close> is
  the same channel of the source pixel \<open>(floor (i * (w / 120)), floor (j * (w / 120)))\<close>,
  which is a pixel of the image; the divisions and products are those of the code, on
  doubles. A 1200 by 800 image gives a 120 by 80 one.
\<close>

theorem scaleImageToThumbnail_nearest_neighbour:
  assumes "1 \<le> width R" and "width R \<le> 65535" and "height R \<le> 65535"
    and "length (data R) = width R * height R * 4"
  shows "\<exists>t oh. scaleImageToThumbnail R = Inr t
     \<and> thumb_width t = 120
     \<and> thumb_height t = Math_floor (js_div (Num (of_nat (height R)))
                                      (js_div (Num (of_nat (width R))) (Num 120)))
     \<and> thumb_height t = Num (of_nat oh)
     \<and> length (thumb_data t) = 120 * oh * 4
     \<and> (\<forall>i < 120. \<forall>j < oh. \<exists>x y.
          Math_floor (js_mul (Num (of_nat i)) (js_div (Num (of_nat (width R))) (Num 120)))
            = Num (of_nat x)
        \<and> Math_floor (js_mul (Num (of_nat j)) (js_div (Num (of_nat (width R))) (Num 120)))
            = Num (of_nat y)
        \<and> x < width R \<and> y < height R
        \<and> (\<forall>c < 4. thumb_data t ! ((j * 120 + i) * 4 + c) =
                     data R ! ((y * width R + x) * 4 + c)))
     \<and> (width R = 1200 \<and> height R = 800 \<longrightarrow> oh = 80)"
proof -
  from scaleFactor_bounds[OF assms(1,2)] obtain s
    where sf: "js_div (Num (of_nat (width R))) (Num 120) = Num s"
      and s: "s \<le> of_nat (width R) / 120 * (1 + 1 / 2 ^ 53)" "1 / 128 \<le> s" "s \<le> 1024"
    by blast
  from scaledHeight_bounds[OF assms(3) s(2,3)] obtain oh
    where sh: "Math_floor (js_div (Num (of_nat (height R))) (Num s)) = Num (of_nat oh)"
      and oh: "of_nat oh \<le> of_nat (height R) / s * (1 + 1 / 2 ^ 53)" "oh < 2 ^ 24"
    by blast
  define t where "t = \<lparr>thumb_width = 120, thumb_height = Num (of_nat oh),
     thumb_data = outer_loop R (Num s) 120 oh (replicate (120 * oh * 4) 0)\<rparr>"
  have res: "scaleImageToThumbnail R = Inr t"
    using scale_result[OF sf sh oh(2)] by (simp add: t_def)
  have "width R * height R \<le> 65535 * 65535"
    using assms(2,3) by (rule mult_le_mono)
  then have "width R * height R * 4 \<le> 65535 * 65535 * 4" by (rule mult_le_mono1)
  also have "\<dots> < 2 ^ 53" by simp
  finally have small: "length (data R) < 2 ^ 53" unfolding assms(4) .
  have px: "\<exists>x y. Math_floor (js_mul (Num (of_nat i)) (Num s)) = Num (of_nat x)
        \<and> Math_floor (js_mul (Num (of_nat j)) (Num s)) = Num (of_nat y)
        \<and> x < width R \<and> y < height R
        \<and> (\<forall>c < 4. thumb_data t ! ((j * 120 + i) * 4 + c) =
                     data R ! ((y * width R + x) * 4 + c))"
    if i: "i < 120" and j: "j < oh" for i j
  proof -
    from origX_bound[OF assms(1) i s(2,3,1)] obtain x
      where x: "Math_floor (js_mul (Num (of_nat i)) (Num s)) = Num (of_nat x)" "x < width R"
      by blast
    from origY_bound[OF assms(3) j s(2,3) oh(2,1)] obtain y
      where y: "Math_floor (js_mul (Num (of_nat j)) (Num s)) = Num (of_nat y)" "y < height R"
      by blast
    have "\<forall>c < 4. thumb_data t ! ((j * 120 + i) * 4 + c) =
                     data R ! ((y * width R + x) * 4 + c)"
      using scale_pixel(1)[OF res sf sh oh(2) i j _ x y assms(4) small] by blast
    with x y show ?thesis by blast
  qed
  have ex: "oh = 80" if "width R = 1200" "height R = 800"
  proof -
    have "Num s = Num 10" using sf that(1) by simp
    then have "Num (rat_of_nat oh) = Num 80" using sh that(2) by simp
    then have "rat_of_nat oh = of_nat 80" by simp
    then show ?thesis by (simp only: of_nat_eq_iff)
  qed
  have "thumb_width t = 120" "thumb_height t = Num (of_nat oh)"
    "length (thumb_data t) = 120 * oh * 4"
    by (simp_all add: t_def)
  with res px ex show ?thesis unfolding sf sh by blast
qed

theorem scaleImageToThumbnail_nearest_neighbour_witness:
  "1 \<le> width \<lparr>width = 1200, height = 800, data = replicate 3840000 7\<rparr>
   \<and> width \<lparr>width = 1200, height = 800, data = replicate 3840000 7\<rparr> \<le> 65535
   \<and> height \<lparr>width = 1200, height = 800, data = replicate 3840000 7\<rparr> \<le> 65535
   \<and> length (data \<lparr>width = 1200, height = 800, data = replicate 3840000 7\<rparr>) = 1200 * 800 * 4
   \<and> (\<exists>t. scaleImageToThumbnail \<lparr>width = 1200, height = 800, data = replicate 3840000 7\<rparr> = Inr t
        \<and> thumb_width t = 120 \<and> thumb_height t = Num 80
        \<and> thumb_data t ! ((79 * 120 + 119) * 4 + 3) = 7)"
proof -
  let ?R = "\<lparr>width = 1200, height = 800, data = replicate 3840000 7\<rparr>"
  have h1: "1 \<le> width ?R" and h2: "width ?R \<le> 65535" and h3: "height ?R \<le> 65535"
    and h4: "length (data ?R) = width ?R * height ?R * 4"
    by simp_all
  from scaleImageToThumbnail_nearest_neighbour[OF h1 h2 h3 h4]
  obtain t oh where t: "scaleImageToThumbnail ?R = Inr t" "thumb_width t = 120"
    "thumb_height t = Num (of_nat oh)"
    and px: "\<forall>i < 120. \<forall>j < oh. \<exists>x y.
          Math_floor (js_mul (Num (of_nat i)) (js_div (Num (of_nat (width ?R))) (Num 120)))
            = Num (of_nat x)
        \<and> Math_floor (js_mul (Num (of_nat j)) (js_div (Num (of_nat (width ?R))) (Num 120)))
            = Num (of_nat y)
        \<and> x < width ?R \<and> y < height ?R
        \<and> (\<forall>c < 4. thumb_data t ! ((j * 120 + i) * 4 + c) =
                     data ?R ! ((y * width ?R + x) * 4 + c))"
    and oh: "width ?R = 1200 \<and> height ?R = 800 \<longrightarrow> oh = 80"
    by blast
  from oh have oh80: "oh = 80" by simp
  have "119 < (120::nat)" "79 < oh" by (simp_all add: oh80)
  from px[rule_format, OF this] obtain x y where xy: "x < width ?R" "y < height ?R"
    and c: "\<forall>c < 4. thumb_data t ! ((79 * 120 + 119) * 4 + c) =
                     data ?R ! ((y * width ?R + x) * 4 + c)"
    by blast
  have "(y * 1200 + x) * 4 + 3 < 3840000" using xy by simp
  then have "thumb_data t ! ((79 * 120 + 119) * 4 + 3) = 7"
    using c[rule_format, of 3] by simp
  with t oh80 show ?thesis by simp
qed

lemma scale_pixel_channels:
  assumes t: "scaleImageToThumbnail R = Inr t"
    and sf: "js_div (Num (of_nat (width R))) (Num 120) = Num s"
    and sh: "Math_floor (js_div (Num (of_nat (height R))) (Num s)) = Num (of_nat k)"
    and k: "k < 2 ^ 24"
    and i: "i < 120" and j: "j < k"
    and x: "Math_floor (js_mul (Num (of_nat i)) (Num s)) = Num (of_nat x)" "x < width R"
    and y: "Math_floor (js_mul (Num (of_nat j)) (Num s)) = Num (of_nat y)" "y < height R"
    and len: "length (data R) = width R * height R * 4" "length (data R) < 2 ^ 53"
  shows "pixel (thumb_data t) 120 i j = pixel (data R) (width R) x y"
proof -
  have "read_byte (thumb_data t) ((j * 120 + i) * 4 + c) =
        read_byte (data R) ((y * width R + x) * 4 + c)"
    if "c < 4" for c
    using scale_pixel[OF t sf sh k i j that x y len] by (simp add: read_byte_def)
  then show ?thesis
    unfolding pixel_def by (intro map_cong) simp_all
qed

text \<open>What the scaler makes of a 4 by 4 image. The scale factor is the double nearest to
  \<open>4 / 120\<close>, a little below \<open>1 / 30\<close>; \<open>4\<close> divided by it rounds to 120, so the image
  is enlarged to 120 by 120; and \<open>i\<close> times it, rounded, has the floor \<open>i div 30\<close>.\<close>

lemma scale_4x4_factor: "js_div (Num 4) (Num 120) = Num (4803839602528529 / 2 ^ 57)"
proof -
  have "fl (4 / 120) = Num (4803839602528529 / 2 ^ 57)"
    by (rule fl_eqI[where e = "- 5" and m = 4803839602528529, THEN trans])
      (simp_all add: round_even_def)
  then show ?thesis by simp
qed

lemma scale_4x4_height:
  "Math_floor (js_div (Num 4) (Num (4803839602528529 / 2 ^ 57))) = Num 120"
proof -
  have "fl (4 / (4803839602528529 / 2 ^ 57)) = Num 120"
    by (rule fl_eqI[where e = 6 and m = 8444249301319680, THEN trans])
      (simp_all add: round_even_def)
  then show ?thesis by simp
qed

lemma scale_4x4_multiples:
  "fl (30 * (4803839602528529 / 2 ^ 57)) = Num 1"
  "fl (60 * (4803839602528529 / 2 ^ 57)) = Num 2"
  "fl (90 * (4803839602528529 / 2 ^ 57)) = Num 3"
proof -
  show "fl (30 * (4803839602528529 / 2 ^ 57)) = Num 1"
    by (rule fl_eqI[where e = "- 1" and m = 9007199254740992, THEN trans])
      (simp_all add: round_even_def)
  show "fl (60 * (4803839602528529 / 2 ^ 57)) = Num 2"
    by (rule fl_eqI[where e = 0 and m = 9007199254740992, THEN trans])
      (simp_all add: round_even_def)
  show "fl (90 * (4803839602528529 / 2 ^ 57)) = Num 3"
    by (rule fl_eqI[where e = 1 and m = 6755399441055744, THEN trans])
      (simp_all add: round_even_def)
qed


lemma scale_4x4_coord:
  assumes "i < 120"
  shows "Math_floor (js_mul (Num (of_nat i)) (Num (4803839602528529 / 2 ^ 57)))
     = Num (of_nat (i div 30))"
proof (cases "i mod 30 = 0")
  case True
  with assms have "i = 0 \<or> i = 30 \<or> i = 60 \<or> i = 90" by presburger
  then show ?thesis using scale_4x4_multiples by auto
next
  case False
  define c :: rat where "c = 4803839602528529 / 2 ^ 57"
  define A where "A = rat_of_nat (i div 30)"
  define B where "B = rat_of_nat (i mod 30)"
  define q where "q = of_nat i * c"
  have "rat_of_nat (30 * (i div 30) + i mod 30) = 30 * A + B"
    by (simp only: of_nat_add of_nat_mult of_nat_numeral A_def B_def)
  then have i: "rat_of_nat i = 30 * A + B" by (simp only: mult_div_mod_eq)
  have "1 \<le> i mod 30" "i mod 30 \<le> 29" "i div 30 \<le> 3" using False assms by simp_all
  then have "rat_of_nat 1 \<le> of_nat (i mod 30)" "rat_of_nat (i mod 30) \<le> of_nat 29"
    "rat_of_nat (i div 30) \<le> of_nat 3"
    by (simp_all only: of_nat_le_iff)
  then have AB: "1 \<le> B" "B \<le> 29" "A \<le> 3" "0 \<le> A" by (simp_all add: A_def B_def)
  have q: "q = 30 * A * c + B * c" by (simp add: q_def i algebra_simps)
  have lo: "A + 1 / 31 \<le> q" and hi: "q \<le> A + 29 / 30 " and q4: "q \<le> 4"
    using AB unfolding q c_def by simp_all
  have "q = 0 \<or> 1 / 2 ^ 30 \<le> q" using lo AB(4) by simp
  moreover have "q \<le> 2 ^ 60" using q4 by simp
  ultimately obtain r where r: "fl q = Num r" "q * (1 - 1 / 2 ^ 53) \<le> r"
    "r \<le> q * (1 + 1 / 2 ^ 53)"
    by (rule fl_moderate)
  have "q0 * (1 - 1 / 2 ^ 53) = q0 - q0 / 2 ^ 53" "q0 * (1 + 1 / 2 ^ 53) = q0 + q0 / 2 ^ 53"
    for q0 :: rat
    by (simp_all add: algebra_simps)
  with r have r': "q - q / 2 ^ 53 \<le> r" "r \<le> q + q / 2 ^ 53" by simp_all
  have "q / 2 ^ 53 \<le> 4 / 2 ^ 53" using q4 by (intro divide_right_mono) simp_all
  then have "q / 2 ^ 53 \<le> 1 / 1000" by simp
  with r' lo hi have "A \<le> r" "r < A + 1" by simp_all
  then have "of_int (int (i div 30)) \<le> r" "r < of_int (int (i div 30)) + 1"
    by (simp_all add: A_def)
  then have "\<lfloor>r\<rfloor> = int (i div 30)" by (rule floor_unique)
  then show ?thesis using r(1) by (simp add: q_def c_def)
qed

lemma raster4x4_shape:
  "width raster4x4 = 4" "height raster4x4 = 4" "length (data raster4x4) = 64"
  by (simp_all add: raster4x4_def)

lemma raster4x4_pixels:
  "pixel (data raster4x4) 4 0 0 = [0, 1, 2, 3]"
  "pixel (data raster4x4) 4 2 2 = [40, 41, 42, 43]"
  by (simp_all add: pixel_def raster4x4_def read_byte_def upt_rec)

lemma scale_4x4_pixels:
  assumes "width R = 4" and "height R = 4" and "length (data R) = 64"
  shows "\<exists>t. scaleImageToThumbnail R = Inr t
     \<and> thumb_width t = 120 \<and> thumb_height t = Num 120
     \<and> (\<forall>i < 120. \<forall>j < 120.
          pixel (thumb_data t) 120 i j = pixel (data R) 4 (i div 30) (j div 30))"
proof -
  define c :: rat where "c = 4803839602528529 / 2 ^ 57"
  have sf: "js_div (Num (of_nat (width R))) (Num 120) = Num c"
    using scale_4x4_factor assms(1) by (simp add: c_def)
  have sh: "Math_floor (js_div (Num (of_nat (height R))) (Num c)) = Num (of_nat 120)"
    using scale_4x4_height assms(2) by (simp add: c_def)
  have k: "(120::nat) < 2 ^ 24" by simp
  have len: "length (data R) = width R * height R * 4" "length (data R) < 2 ^ 53"
    using assms by simp_all
  obtain t where t: "scaleImageToThumbnail R = Inr t" "thumb_width t = 120"
    "thumb_height t = Num 120"
    using scale_result[OF sf sh k] by simp
  have "pixel (thumb_data t) 120 i j = pixel (data R) 4 (i div 30) (j div 30)"
    if "i < 120" "j < 120" for i j
  proof -
    have x: "Math_floor (js_mul (Num (of_nat i)) (Num c)) = Num (of_nat (i div 30))"
      "i div 30 < width R"
      using scale_4x4_coord[OF that(1)] that(1) assms(1) by (simp_all add: c_def)
    have y: "Math_floor (js_mul (Num (of_nat j)) (Num c)) = Num (of_nat (j div 30))"
      "j div 30 < height R"
      using scale_4x4_coord[OF that(2)] that(2) assms(2) by (simp_all add: c_def)
    show ?thesis
      using scale_pixel_channels[OF t(1) sf sh k that x y len] assms(1) by simp
  qed
  with t show ?thesis by simp
qed

text \<open>
  C9, as the code has it. The output is never 2 by 2: its width is the constant 120. A 4
  by 4 image is scaled with the factor \<open>4 / 120\<close> to 120 by 120, and output
  pixel \<open>(i, j)\<close> is input pixel \<open>(i div 30, j div 30)\<close>: output pixel \<open>(0, 0)\<close> is
  input pixel \<open>(0, 0)\<close>, so is output pixel \<open>(1, 1)\<close>, and input pixel \<open>(2, 2)\<close> is
  output pixel \<open>(60, 60)\<close>.
\<close>

theorem scaleImageToThumbnail_4x4:
  assumes "width R = 4" and "height R = 4" and "length (data R) = 64"
  shows "\<exists>t. scaleImageToThumbnail R = Inr t
     \<and> thumb_width t = 120 \<and> thumb_height t = Num 120
     \<and> (\<forall>i < 120. \<forall>j < 120.
          pixel (thumb_data t) 120 i j = pixel (data R) 4 (i div 30) (j div 30))
     \<and> pixel (thumb_data t) 120 0 0 = pixel (data R) 4 0 0
     \<and> pixel (thumb_data t) 120 1 1 = pixel (data R) 4 0 0
     \<and> pixel (thumb_data t) 120 60 60 = pixel (data R) 4 2 2"
proof -
  from scale_4x4_pixels[OF assms] obtain t where t: "scaleImageToThumbnail R = Inr t"
    "thumb_width t = 120" "thumb_height t = Num 120"
    and px: "\<And>i j. i < 120 \<Longrightarrow> j < 120 \<Longrightarrow>
          pixel (thumb_data t) 120 i j = pixel (data R) 4 (i div 30) (j div 30)"
    by blast
  from px[of 0 0] px[of 1 1] px[of 60 60] px t show ?thesis by simp
qed

theorem scaleImageToThumbnail_4x4_witness:
  "width raster4x4 = 4 \<and> height raster4x4 = 4 \<and> length (data raster4x4) = 64
   \<and> (\<exists>t. scaleImageToThumbnail raster4x4 = Inr t
        \<and> thumb_width t = 120 \<and> thumb_height t = Num 120
        \<and> pixel (thumb_data t) 120 60 60 = [40, 41, 42, 43])"
proof -
  from scaleImageToThumbnail_4x4[OF raster4x4_shape]
  obtain t where "scaleImageToThumbnail raster4x4 = Inr t"
    "thumb_width t = 120" "thumb_height t = Num 120"
    "pixel (thumb_data t) 120 60 60 = pixel (data raster4x4) 4 2 2"
    by blast
  then show ?thesis by (simp add: raster4x4_shape raster4x4_pixels)
qed

text \<open>The claim as the specification words it fails on that image: the output is 120 by
  120, not 2 by 2, and output pixel \<open>(1, 1)\<close> is input pixel \<open>(0, 0)\<close>, not
  \<open>(2, 2)\<close>.\<close>

theorem scaleImageToThumbnail_4x4_counterexample:
  "\<not> isl (scaleImageToThumbnail raster4x4)
   \<and> thumb_width (projr (scaleImageToThumbnail raster4x4)) = 120
   \<and> thumb_height (projr (scaleImageToThumbnail raster4x4)) = Num 120
   \<and> pixel (thumb_data (projr (scaleImageToThumbnail raster4x4))) 120 1 1 = [0, 1, 2, 3]
   \<and> pixel (data raster4x4) 4 2 2 = [40, 41, 42, 43]"
proof -
  from scale_4x4_pixels[OF raster4x4_shape] obtain t where
    "scaleImageToThumbnail raster4x4 = Inr t"
    "thumb_width t = 120" "thumb_height t = Num 120"
    "pixel (thumb_data t) 120 1 1 = pixel (data raster4x4) 4 (1 div 30) (1 div 30)"
    by force
  then show ?thesis by (simp add: raster4x4_pixels)
qed
section \<open>Properties of the loop over the buckets\<close>

lemma new_Uint8Array_error: "new_Uint8Array x = Inl e \<Longrightarrow> code e = None"
  by (cases x) (auto split: if_splits)

lemma scale_error_code: "scaleImageToThumbnail R = Inl e \<Longrightarrow> code e = None"
  unfolding scaleImageToThumbnail_def Let_def
  by (auto split: sum.splits dest: new_Uint8Array_error)

lemma get_base64Data_error:
  "get_base64Data enc H sel st tr = (Inl e, tr') \<Longrightarrow> code e = None"
  unfolding get_base64Data_def Let_def
  by (auto split: option.splits list.splits sum.splits dest: scale_error_code)

lemma get_base64Data_sound:
  assumes "cache_sound enc H st" and "get_base64Data enc H sel st tr = (Inr (s, st'), tr')"
  shows "\<exists>r t. sel = Some r \<and> scaleImageToThumbnail (getParsedImage (H r)) = Inr t
           \<and> s = enc t 90 \<and> cache_sound enc H st' \<and> thumbnails st' = thumbnails st"
  using assms unfolding get_base64Data_def Let_def cache_sound_def cache_get_def
  by (auto split: option.splits list.splits sum.splits if_splits)

lemma get_base64Data_trace:
  assumes "never_empty enc" and "trace_ok st tr"
    and "get_base64Data enc H sel st tr = (Inr (s, st'), tr')"
  shows "trace_ok st' tr' \<and> dom (cachedThumbnails st) \<subseteq> dom (cachedThumbnails st')
     \<and> (\<exists>r. sel = Some r \<and> r \<in> dom (cachedThumbnails st'))"
  using assms unfolding get_base64Data_def Let_def trace_ok_def cache_get_def never_empty_def
  by (auto split: option.splits list.splits sum.splits if_splits)

lemma get_base64Data_trace_error:
  assumes "trace_ok st tr" and "get_base64Data enc H sel st tr = (Inl e, tr')"
  shows "distinct tr'"
  using assms unfolding get_base64Data_def Let_def trace_ok_def cache_get_def
  by (auto split: option.splits list.splits sum.splits if_splits)

lemma cache_sound_thumbnails [simp]:
  "cache_sound enc H (st\<lparr>thumbnails := x\<rparr>) = cache_sound enc H st"
  by (simp add: cache_sound_def)

lemma trace_ok_thumbnails [simp]: "trace_ok (st\<lparr>thumbnails := x\<rparr>) tr = trace_ok st tr"
  by (simp add: trace_ok_def)

lemma bucket_Inl:
  "bucket enc H sl te an st tr i = (Inl e, tr') \<longleftrightarrow>
   get_base64Data enc H (frameForTimestamp H an (targetTimestamp sl te i) i) st tr = (Inl e, tr')"
  unfolding bucket_def Let_def by (auto split: prod.splits sum.splits)

lemma bucket_Inr:
  "bucket enc H sl te an st tr i = (Inr st', tr') \<longleftrightarrow>
   (\<exists>s st1. get_base64Data enc H (frameForTimestamp H an (targetTimestamp sl te i) i) st tr
        = (Inr (s, st1), tr')
      \<and> st' = st1\<lparr>thumbnails := thumbnails st1 @
           [\<lparr>timing = Math_round (js_sub (targetTimestamp sl te i) (beginning sl)),
             timestamp = js_mul (targetTimestamp sl te i) (Num 1000),
             item_data = ''data:image/jpeg;base64,'' @ s\<rparr>]\<rparr>)"
  unfolding bucket_def Let_def by (auto split: prod.splits sum.splits)

lemma buckets_error_code:
  "buckets enc H sl te an st tr is = (Inl e, tr') \<Longrightarrow> code e = None"
proof (induction "is" arbitrary: st tr)
  case Nil
  then show ?case by simp
next
  case (Cons i "is")
  obtain res tr1 where b: "bucket enc H sl te an st tr i = (res, tr1)"
    by (cases "bucket enc H sl te an st tr i")
  show ?case
  proof (cases res)
    case (Inl e1)
    with Cons.prems b have "e1 = e" by simp
    with b Inl show ?thesis
      by (auto simp: bucket_Inl dest: get_base64Data_error)
  next
    case (Inr st1)
    with Cons.prems b have "buckets enc H sl te an st1 tr1 is = (Inl e, tr')" by simp
    then show ?thesis by (rule Cons.IH)
  qed
qed

lemma bucket_sound:
  assumes "cache_sound enc H st" and "bucket enc H sl te an st tr i = (Inr st', tr')"
  shows "cache_sound enc H st' \<and> (\<exists>it. thumbnails st' = thumbnails st @ [it] \<and> pushed enc H sl te an i it)"
proof -
  from assms(2) obtain s st1 where
    g: "get_base64Data enc H (frameForTimestamp H an (targetTimestamp sl te i) i) st tr
        = (Inr (s, st1), tr')"
    and st': "st' = st1\<lparr>thumbnails := thumbnails st1 @
           [\<lparr>timing = Math_round (js_sub (targetTimestamp sl te i) (beginning sl)),
             timestamp = js_mul (targetTimestamp sl te i) (Num 1000),
             item_data = ''data:image/jpeg;base64,'' @ s\<rparr>]\<rparr>"
    unfolding bucket_Inr by blast
  from get_base64Data_sound[OF assms(1) g] obtain r t where
    "frameForTimestamp H an (targetTimestamp sl te i) i = Some r"
    "scaleImageToThumbnail (getParsedImage (H r)) = Inr t" "s = enc t 90"
    "cache_sound enc H st1" "thumbnails st1 = thumbnails st"
    by blast
  then show ?thesis
    unfolding st' pushed_def thumbnail_item_def by auto
qed

lemma buckets_sound:
  assumes "cache_sound enc H st" and "buckets enc H sl te an st tr is = (Inr st', tr')"
  shows "cache_sound enc H st' \<and>
     (\<exists>its. thumbnails st' = thumbnails st @ its \<and> list_all2 (pushed enc H sl te an) is its)"
  using assms
proof (induction "is" arbitrary: st tr)
  case Nil
  then show ?case by simp
next
  case (Cons i "is")
  obtain res tr1 where b: "bucket enc H sl te an st tr i = (res, tr1)"
    by (cases "bucket enc H sl te an st tr i")
  show ?case
  proof (cases res)
    case (Inl e1)
    with Cons.prems b show ?thesis by simp
  next
    case (Inr st1)
    with Cons.prems b have rest: "buckets enc H sl te an st1 tr1 is = (Inr st', tr')" by simp
    from bucket_sound[OF Cons.prems(1)] b Inr obtain it where
      s1: "cache_sound enc H st1" and it: "thumbnails st1 = thumbnails st @ [it]"
      "pushed enc H sl te an i it"
      by blast
    from Cons.IH[OF s1 rest] obtain its where
      "cache_sound enc H st'" "thumbnails st' = thumbnails st1 @ its"
      "list_all2 (pushed enc H sl te an) is its"
      by blast
    with it show ?thesis
      by (intro conjI exI[of _ "it # its"]) simp_all
  qed
qed

lemma bucket_trace:
  assumes "never_empty enc" and "trace_ok st tr"
    and "bucket enc H sl te an st tr i = (Inr st', tr')"
  shows "trace_ok st' tr' \<and> dom (cachedThumbnails st) \<subseteq> dom (cachedThumbnails st')
     \<and> (\<exists>r. frameForTimestamp H an (targetTimestamp sl te i) i = Some r
            \<and> r \<in> dom (cachedThumbnails st'))"
proof -
  from assms(3) obtain s st1 where
    g: "get_base64Data enc H (frameForTimestamp H an (targetTimestamp sl te i) i) st tr
        = (Inr (s, st1), tr')"
    and st': "cachedThumbnails st' = cachedThumbnails st1" "trace_ok st' tr' = trace_ok st1 tr'"
    unfolding bucket_Inr by auto
  from get_base64Data_trace[OF assms(1,2) g] show ?thesis
    by (simp add: st')
qed

lemma buckets_trace:
  assumes "never_empty enc" and "trace_ok st tr"
    and "buckets enc H sl te an st tr is = (Inr st', tr')"
  shows "trace_ok st' tr' \<and> dom (cachedThumbnails st) \<subseteq> dom (cachedThumbnails st')
      \<and> (\<forall>i \<in> set is. \<exists>r. frameForTimestamp H an (targetTimestamp sl te i) i = Some r
            \<and> r \<in> dom (cachedThumbnails st'))"
  using assms(2,3)
proof (induction "is" arbitrary: st tr)
  case Nil
  then show ?case by simp
next
  case (Cons i "is")
  obtain res tr1 where b: "bucket enc H sl te an st tr i = (res, tr1)"
    by (cases "bucket enc H sl te an st tr i")
  show ?case
  proof (cases res)
    case (Inl e1)
    with b Cons.prems(2) show ?thesis by simp
  next
    case (Inr st1)
    with b Cons.prems(2) have rest: "buckets enc H sl te an st1 tr1 is = (Inr st', tr')"
      by simp
    from bucket_trace[where H = H and sl = sl and te = te and an = an and i = i
        and st' = st1 and tr' = tr1, OF assms(1) Cons.prems(1)] b Inr obtain r where
      s1: "trace_ok st1 tr1" "dom (cachedThumbnails st) \<subseteq> dom (cachedThumbnails st1)"
      "frameForTimestamp H an (targetTimestamp sl te i) i = Some r"
      "r \<in> dom (cachedThumbnails st1)"
      by blast
    from Cons.IH[OF s1(1) rest] s1 show ?thesis by auto
  qed
qed

lemma buckets_trace_error:
  assumes "never_empty enc" and "trace_ok st tr"
    and "buckets enc H sl te an st tr is = (Inl e, tr')"
  shows "distinct tr'"
  using assms(2,3)
proof (induction "is" arbitrary: st tr)
  case Nil
  then show ?case by simp
next
  case (Cons i "is")
  obtain res tr1 where b: "bucket enc H sl te an st tr i = (res, tr1)"
    by (cases "bucket enc H sl te an st tr i")
  show ?case
  proof (cases res)
    case (Inl e1)
    with b Cons.prems(2) have "bucket enc H sl te an st tr i = (Inl e, tr')" by simp
    then show ?thesis
      using get_base64Data_trace_error[OF Cons.prems(1)] by (simp add: bucket_Inl)
  next
    case (Inr st1)
    with b Cons.prems(2) have rest: "buckets enc H sl te an st1 tr1 is = (Inl e, tr')"
      by simp
    from bucket_trace[where H = H and sl = sl and te = te and an = an and i = i
        and st' = st1 and tr' = tr1, OF assms(1) Cons.prems(1)] b Inr
    have "trace_ok st1 tr1" by blast
    from Cons.IH[OF this rest] show ?thesis .
  qed
qed
section \<open>Properties of the build\<close>

lemma buckets_list: "[1..<Suc NUMBER_OF_THUMBNAILS] = [1, 2, 3, 4, 5, 6, 7, 8, 9, 10]"
  by (simp add: NUMBER_OF_THUMBNAILS_def upt_rec)

lemma example_analyzed: "analyzedFrames example_store example_speedline = [0, 1, 3]"
  by (simp add: analyzedFrames_def example_store_def example_speedline_def)

lemma example_timelineEnd: "timelineEnd example_store example_speedline None = Num 3000"
  by (simp add: timelineEnd_def maxFrameTime_def minimumTimelineDuration_def Math_max_def
      example_store_def example_speedline_def js_sub_def)

lemma example_frames:
  "map (bucket_frame example_store example_speedline None) [1, 2, 3, 4, 5, 6, 7, 8, 9, 10]
   = [Some 0, Some 0, Some 0, Some 1, Some 1, Some 1, Some 1, Some 1, Some 1, Some 3]"
  by (simp add: bucket_frame_def bucket_target_def example_analyzed example_timelineEnd
      frameForTimestamp_def targetTimestamp_def NUMBER_OF_THUMBNAILS_def)
     (simp add: example_store_def example_speedline_def)

lemma get_base64Data_success:
  assumes "scaleImageToThumbnail (getParsedImage (H r)) = Inr t"
  shows "\<exists>s st' tr'. get_base64Data enc H (Some r) st tr = (Inr (s, st'), tr')"
  using assms unfolding get_base64Data_def Let_def
  by (auto split: option.splits list.splits)

lemma bucket_success:
  assumes "frameForTimestamp H an (targetTimestamp sl te i) i = Some r"
    and "scaleImageToThumbnail (getParsedImage (H r)) = Inr t"
  shows "\<exists>st' tr'. bucket enc H sl te an st tr i = (Inr st', tr')"
  using get_base64Data_success[where enc = enc and st = st and tr = tr and H = H and r = r] assms
  unfolding bucket_def Let_def by auto

lemma buckets_success:
  assumes "\<forall>i \<in> set is. \<exists>r t. frameForTimestamp H an (targetTimestamp sl te i) i = Some r
             \<and> scaleImageToThumbnail (getParsedImage (H r)) = Inr t"
  shows "\<exists>st' tr'. buckets enc H sl te an st tr is = (Inr st', tr')"
  using assms
proof (induction "is" arbitrary: st tr)
  case Nil
  then show ?case by simp
next
  case (Cons i "is")
  then obtain r t where "frameForTimestamp H an (targetTimestamp sl te i) i = Some r"
    "scaleImageToThumbnail (getParsedImage (H r)) = Inr t"
    by auto
  from bucket_success[where enc = enc and st = st and tr = tr and H = H and r = r] this
  obtain st1 tr1 where "bucket enc H sl te an st tr i = (Inr st1, tr1)" by blast
  moreover from Cons have "\<exists>st' tr'. buckets enc H sl te an st1 tr1 is = (Inr st', tr')"
    by simp
  ultimately show ?case by simp
qed

text \<open>The run of \<open>_audit\<close> on a speedline, by cases.\<close>

lemma run_invalid:
  assumes "analyzedFrames H sl = [] \<or> \<not> isFinite (timelineEnd H sl opt)"
  shows "underscore_audit_run enc H (Inr sl) opt = (Inl (LighthouseError INVALID_SPEEDLINE), [])"
  using assms by (auto simp: underscore_audit_run_def Let_def)

lemma run_valid:
  assumes "analyzedFrames H sl \<noteq> []" and "isFinite (timelineEnd H sl opt)"
  shows "underscore_audit_run enc H (Inr sl) opt =
     (case buckets enc H sl (timelineEnd H sl opt) (analyzedFrames H sl)
             \<lparr>cachedThumbnails = Map.empty, thumbnails = []\<rparr> []
             [1..<Suc NUMBER_OF_THUMBNAILS] of
        (Inl e, trace) \<Rightarrow> (Inl e, trace)
      | (Inr st, trace) \<Rightarrow>
          (Inr \<lparr>score = Num 1, notApplicable = None,
                details = Some \<lparr>details_type = ''filmstrip'',
                                details_scale = timelineEnd H sl opt,
                                details_items = thumbnails st\<rparr>\<rparr>,
           trace))"
  using assms by (simp add: underscore_audit_run_def Let_def del: upt_Suc)

lemma run_error_code:
  assumes "analyzedFrames H sl \<noteq> []" and "isFinite (timelineEnd H sl opt)"
    and "underscore_audit_run enc H (Inr sl) opt = (Inl e, tr)"
  shows "code e = None"
  using assms(3) unfolding run_valid[OF assms(1,2)]
  by (auto split: prod.splits sum.splits dest: buckets_error_code)

text \<open>
  C7. Given the speedline, \<open>_audit\<close> throws \<open>INVALID_SPEEDLINE\<close> exactly when there is
  no analyzed (non-interpolated) frame or the timeline end is not finite, and it then
  throws before any image is scaled or encoded: the trace of the work is empty.
\<close>

theorem invalid_timeline_iff:
  "(underscore_audit enc H (Inr sl) opt = Inl (LighthouseError INVALID_SPEEDLINE)
     \<longleftrightarrow> analyzedFrames H sl = [] \<or> \<not> isFinite (timelineEnd H sl opt))
   \<and> (analyzedFrames H sl = [] \<or> \<not> isFinite (timelineEnd H sl opt)
     \<longrightarrow> underscore_audit_run enc H (Inr sl) opt = (Inl (LighthouseError INVALID_SPEEDLINE), []))"
proof -
  have "code e = None" if "analyzedFrames H sl \<noteq> []" "isFinite (timelineEnd H sl opt)"
    "underscore_audit enc H (Inr sl) opt = Inl e" for e
    using that run_error_code[of H sl opt enc e "snd (underscore_audit_run enc H (Inr sl) opt)"]
    by (simp add: underscore_audit_def prod_eq_iff)
  then have "underscore_audit enc H (Inr sl) opt \<noteq> Inl (LighthouseError INVALID_SPEEDLINE)"
    if "analyzedFrames H sl \<noteq> []" "isFinite (timelineEnd H sl opt)"
    using that by fastforce
  then show ?thesis
    using run_invalid[of H sl opt enc] by (auto simp: underscore_audit_def)
qed

theorem invalid_timeline_iff_witness:
  "analyzedFrames example_store (example_speedline\<lparr>frames := [2]\<rparr>) = []
   \<and> underscore_audit example_encoder example_store
        (Inr (example_speedline\<lparr>frames := [2]\<rparr>)) None
       = Inl (LighthouseError INVALID_SPEEDLINE)
   \<and> underscore_audit_run example_encoder example_store
        (Inr (example_speedline\<lparr>frames := [2]\<rparr>)) None
       = (Inl (LighthouseError INVALID_SPEEDLINE), [])"
proof -
  have "analyzedFrames example_store (example_speedline\<lparr>frames := [2]\<rparr>) = []"
    by (simp add: analyzedFrames_def example_store_def example_speedline_def)
  then show ?thesis
    using invalid_timeline_iff[of example_encoder example_store
        "example_speedline\<lparr>frames := [2]\<rparr>" None]
    by simp
qed
section \<open>Properties of the timeline end\<close>

lemma max2_Num [simp]: "max2 (Num a) (Num b) = Num (max a b)"
  by (simp add: max_def)

lemma Math_max_pair: "Math_max [Num a, Num d] = Num (max a d)"
  by (simp add: Math_max_def)

lemma js_le_total: "x \<noteq> NaN \<Longrightarrow> y \<noteq> NaN \<Longrightarrow> js_le x y \<or> js_le y x"
  by (cases x; cases y) auto

lemma js_le_trans: "js_le x y \<Longrightarrow> js_le y z \<Longrightarrow> js_le x z"
  by (cases x; cases y; cases z) simp_all

lemma js_le_same: "x \<noteq> NaN \<Longrightarrow> js_le x x"
  by (cases x) simp_all

lemma max2_cases:
  assumes "x \<noteq> NaN" "y \<noteq> NaN"
  shows "max2 x y = (if js_le x y then y else x)"
  using assms by (cases x; cases y) simp_all

text \<open>\<open>Math.max\<close> of numbers none of which is \<open>NaN\<close> is the greatest of them.\<close>

lemma foldl_max2_greatest:
  assumes "a \<noteq> NaN" "NaN \<notin> set xs"
  shows "foldl max2 a xs \<in> insert a (set xs) \<and> js_le a (foldl max2 a xs)
     \<and> (\<forall>x \<in> set xs. js_le x (foldl max2 a xs))"
  using assms
proof (induction xs arbitrary: a)
  case Nil
  then show ?case by (simp add: js_le_same)
next
  case (Cons y ys)
  from Cons.prems have y: "y \<noteq> NaN" and ys: "NaN \<notin> set ys" by auto
  define b where "b = max2 a y"
  have b: "b = (if js_le a y then y else a)"
    unfolding b_def using Cons.prems(1) y by (rule max2_cases)
  then have bn: "b \<noteq> NaN" using Cons.prems(1) y by simp
  have ab: "js_le a b" "js_le y b"
    using b js_le_total[OF Cons.prems(1) y] js_le_same[OF Cons.prems(1)] js_le_same[OF y]
    by (auto split: if_splits)
  from Cons.IH[OF bn ys] have IH: "foldl max2 b ys \<in> insert b (set ys)"
    "js_le b (foldl max2 b ys)" "\<forall>x \<in> set ys. js_le x (foldl max2 b ys)"
    by simp_all
  have "foldl max2 a (y # ys) = foldl max2 b ys" by (simp add: b_def)
  moreover have "b \<in> {a, y}" using b by simp
  ultimately show ?case
    using IH ab by (auto intro: js_le_trans)
qed

lemma Math_max_greatest:
  assumes "xs \<noteq> []" "NaN \<notin> set xs"
  shows "Math_max xs \<in> set xs" and "\<forall>x \<in> set xs. js_le x (Math_max xs)"
proof -
  from foldl_max2_greatest[of NInf xs] assms(2)
  have 1: "Math_max xs \<in> insert NInf (set xs)" and 2: "\<forall>x \<in> set xs. js_le x (Math_max xs)"
    by (simp_all add: Math_max_def)
  show "\<forall>x \<in> set xs. js_le x (Math_max xs)" by (rule 2)
  show "Math_max xs \<in> set xs"
  proof (cases "Math_max xs = NInf")
    case True
    from assms(1) obtain x where x: "x \<in> set xs" by (cases xs) auto
    with 2 True have "js_le x NInf" by simp
    moreover from x assms(2) have "x \<noteq> NaN" by auto
    ultimately have "x = NInf" by (cases x) simp_all
    with x True show ?thesis by simp
  next
    case False
    with 1 show ?thesis by simp
  qed
qed

lemma Math_max_NaN: "NaN \<in> set xs \<Longrightarrow> Math_max xs = NaN"
proof -
  have 1: "foldl max2 NaN ys = NaN" for ys by (induction ys) simp_all
  have "NaN \<in> set xs \<Longrightarrow> foldl max2 a xs = NaN" for a
  proof (induction xs arbitrary: a)
    case Nil
    then show ?case by simp
  next
    case (Cons y ys)
    show ?case
    proof (cases "y = NaN")
      case True
      have "max2 a NaN = NaN" by (cases a) simp_all
      then show ?thesis using True 1 by simp
    next
      case False
      with Cons show ?thesis by simp
    qed
  qed
  then show "NaN \<in> set xs \<Longrightarrow> Math_max xs = NaN" by (simp add: Math_max_def)
qed

text \<open>
  C6, as the code has it. The timeline end is \<open>Math.max(maxFrameTime, minimum)\<close>, where
  \<open>maxFrameTime\<close> is \<open>complete\<close> when that is truthy (present, not 0, not \<open>NaN\<close>) and
  otherwise \<open>Math.max\<close> of \<open>timestamp - beginning\<close> (a difference of doubles) over all
  frames, and the minimum is the option when that is truthy and otherwise 3000. For
  finite operands \<open>Math.max\<close> is the greater; over frames whose differences are not
  \<open>NaN\<close> it is the greatest difference, and with a \<open>NaN\<close> among them it is \<open>NaN\<close>. With
  no \<open>complete\<close>, a greatest relative frame time of 1500 and no option the timeline end is
  3000; with \<open>complete = 5000\<close> it is 5000 for every minimum up to 5000.
\<close>

theorem timelineEnd_formula:
  "let rel = map (\<lambda>r. js_sub (getTimeStamp (H r)) (beginning sl)) (frames sl);
       m = (case complete sl of
              None \<Rightarrow> Math_max rel
            | Some c \<Rightarrow> if c = Num 0 \<or> c = NaN then Math_max rel else c);
       d = (case opt of
              None \<Rightarrow> Num 3000
            | Some x \<Rightarrow> if x = Num 0 \<or> x = NaN then Num 3000 else x)
   in maxFrameTime H sl = m \<and> minimumTimelineDuration opt = d
      \<and> timelineEnd H sl opt = Math_max [m, d]
      \<and> (\<forall>a b. m = Num a \<and> d = Num b \<longrightarrow> timelineEnd H sl opt = Num (max a b))
      \<and> (rel \<noteq> [] \<and> NaN \<notin> set rel \<longrightarrow>
            Math_max rel \<in> set rel \<and> (\<forall>x \<in> set rel. js_le x (Math_max rel)))
      \<and> (NaN \<in> set rel \<longrightarrow> Math_max rel = NaN)
      \<and> (complete sl = None \<and> opt = None \<and> Math_max rel = Num 1500 \<longrightarrow>
            timelineEnd H sl opt = Num 3000)
      \<and> (\<forall>b. complete sl = Some (Num 5000) \<and> d = Num b \<and> b \<le> 5000 \<longrightarrow>
            timelineEnd H sl opt = Num 5000)"
proof -
  define rel where "rel = map (\<lambda>r. js_sub (getTimeStamp (H r)) (beginning sl)) (frames sl)"
  define m where "m = (case complete sl of
              None \<Rightarrow> Math_max rel
            | Some c \<Rightarrow> if c = Num 0 \<or> c = NaN then Math_max rel else c)"
  define d where "d = (case opt of
              None \<Rightarrow> Num 3000
            | Some x \<Rightarrow> if x = Num 0 \<or> x = NaN then Num 3000 else x)"
  have or_eq: "js_or v e = (case v of None \<Rightarrow> e | Some c \<Rightarrow> if c = Num 0 \<or> c = NaN then e else c)"
    for v e
  proof (cases v)
    case None
    then show ?thesis by simp
  next
    case (Some c)
    then show ?thesis by (cases c) simp_all
  qed
  have m: "maxFrameTime H sl = m"
    unfolding maxFrameTime_def or_eq m_def rel_def by (rule refl)
  have d: "minimumTimelineDuration opt = d"
    unfolding minimumTimelineDuration_def or_eq d_def by (rule refl)
  have te: "timelineEnd H sl opt = Math_max [m, d]"
    by (simp add: timelineEnd_def m d)
  have fin: "timelineEnd H sl opt = Num (max a b)" if "m = Num a \<and> d = Num b" for a b
    using that by (simp add: te Math_max_pair)
  have gr: "Math_max rel \<in> set rel \<and> (\<forall>x \<in> set rel. js_le x (Math_max rel))"
    if "rel \<noteq> [] \<and> NaN \<notin> set rel"
    using Math_max_greatest[of rel] that by blast
  have nan: "Math_max rel = NaN" if "NaN \<in> set rel"
    using that by (rule Math_max_NaN)
  have ex1: "timelineEnd H sl opt = Num 3000"
    if "complete sl = None \<and> opt = None \<and> Math_max rel = Num 1500"
  proof -
    from that have "m = Num 1500 \<and> d = Num 3000" by (simp add: m_def d_def)
    from fin[OF this] show ?thesis by simp
  qed
  have ex2: "timelineEnd H sl opt = Num 5000"
    if "complete sl = Some (Num 5000) \<and> d = Num b \<and> b \<le> 5000" for b
  proof -
    from that have "m = Num 5000 \<and> d = Num b" by (simp add: m_def)
    from fin[OF this] that show ?thesis by (simp add: max_def)
  qed
  show ?thesis
    unfolding Let_def rel_def[symmetric] m_def[symmetric] d_def[symmetric]
    using m d te fin gr nan ex1 ex2 by blast
qed

theorem timelineEnd_formula_witness:
  "complete example_speedline = None
   \<and> Math_max (map (\<lambda>r. js_sub (getTimeStamp (half_second_store r)) (beginning example_speedline))
                 (frames example_speedline)) = Num 1500
   \<and> timelineEnd half_second_store example_speedline None = Num 3000
   \<and> timelineEnd example_store (example_speedline\<lparr>complete := Some (Num 5000)\<rparr>)
        (Some (Num 4000)) = Num 5000
   \<and> minimumTimelineDuration (Some (Num 0)) = Num 3000
   \<and> minimumTimelineDuration (Some NaN) = Num 3000
   \<and> minimumTimelineDuration (Some (Num 4000)) = Num 4000"
proof -
  have c: "complete example_speedline = None" by (simp add: example_speedline_def)
  have r: "Math_max (map (\<lambda>r. js_sub (getTimeStamp (half_second_store r))
      (beginning example_speedline)) (frames example_speedline)) = Num 1500"
    by (simp add: example_speedline_def half_second_store_def js_sub_def Math_max_def)
  from timelineEnd_formula[of half_second_store example_speedline None, unfolded Let_def] c r
  have 1: "timelineEnd half_second_store example_speedline None = Num 3000" by blast
  have "complete (example_speedline\<lparr>complete := Some (Num 5000)\<rparr>) = Some (Num 5000)
      \<and> (case Some (Num 4000) of None \<Rightarrow> Num 3000
          | Some x \<Rightarrow> if x = Num 0 \<or> x = NaN then Num 3000 else x) = Num 4000
      \<and> (4000::rat) \<le> 5000"
    by simp
  with timelineEnd_formula[of example_store "example_speedline\<lparr>complete := Some (Num 5000)\<rparr>"
      "Some (Num 4000)", unfolded Let_def]
  have 2: "timelineEnd example_store (example_speedline\<lparr>complete := Some (Num 5000)\<rparr>)
        (Some (Num 4000)) = Num 5000"
    by blast
  have 3: "minimumTimelineDuration (Some (Num 0)) = Num 3000"
    using timelineEnd_formula[of example_store example_speedline "Some (Num 0)"]
    by (simp add: Let_def)
  have 4: "minimumTimelineDuration (Some NaN) = Num 3000"
    using timelineEnd_formula[of example_store example_speedline "Some NaN"]
    by (simp add: Let_def)
  have 5: "minimumTimelineDuration (Some (Num 4000)) = Num 4000"
    using timelineEnd_formula[of example_store example_speedline "Some (Num 4000)"]
    by (simp add: Let_def)
  from c r 1 2 3 4 5 show ?thesis by blast
qed

text \<open>On doubles the difference is rounded: with the beginning at 0.1 and a frame at 300.1
  the relative time of the frame is 300.\<close>

lemma tenth_difference: "js_sub (Num three_hundred_tenth) (Num tenth) = Num 300"
proof -
  have "fl (2639707515964621 / 2 ^ 43 - 3602879701896397 / 2 ^ 55) = Num 300"
    by (rule fl_eqI[where e = 8 and m = 5277655813324800, THEN trans])
      (simp_all add: round_even_def)
  then show ?thesis by (simp add: js_sub_def tenth_def three_hundred_tenth_def)
qed

lemma tenth_timelineEnd: "timelineEnd tenth_store tenth_speedline None = Num 3000"
proof -
  have "js_sub (Num tenth) (Num tenth) = Num 0" by (simp add: js_sub_def)
  then show ?thesis
    using tenth_difference
    by (simp add: timelineEnd_def maxFrameTime_def minimumTimelineDuration_def Math_max_def
        tenth_store_def tenth_speedline_def)
qed

text \<open>The claim as worded fails twice: \<open>complete = 5000\<close> with a minimum of 6000 gives
  6000, not 5000; and \<open>complete = 0\<close>, which is not null, is passed over for the frames
  (greatest relative time 5000), so the timeline end is 5000 and not
  \<open>max 0 3000 = 3000\<close>.\<close>

theorem timelineEnd_formula_counterexample:
  "timelineEnd example_store (example_speedline\<lparr>complete := Some (Num 5000)\<rparr>) (Some (Num 6000))
     = Num 6000
   \<and> timelineEnd example_store (example_speedline\<lparr>frames := [0, 5], complete := Some (Num 0)\<rparr>)
       None = Num 5000"
  by (simp add: timelineEnd_def maxFrameTime_def minimumTimelineDuration_def Math_max_def
      example_store_def example_speedline_def js_sub_def)
section \<open>Properties of the sampler\<close>

lemma foldl_select:
  "foldl (\<lambda>sel r. if P r then Some r else sel) s xs =
     (if filter P xs = [] then s else Some (last (filter P xs)))"
  by (induction xs rule: rev_induct) simp_all

lemma bucket_frame_eq:
  assumes "i \<noteq> 10"
    and "T = js_add (beginning sl) (js_div (js_mul (timelineEnd H sl opt) (Num (of_nat i))) (Num 10))"
  shows "bucket_frame H sl opt i =
     (if frames_at_or_before H (analyzedFrames H sl) T = [] then None
      else Some (last (frames_at_or_before H (analyzedFrames H sl) T)))"
  using assms
  by (simp add: bucket_frame_def bucket_target_def targetTimestamp_def frameForTimestamp_def
      frames_at_or_before_def NUMBER_OF_THUMBNAILS_def foldl_select)

lemma bucket_frame_last:
  assumes "analyzedFrames H sl \<noteq> []"
  shows "bucket_frame H sl opt 10 = Some (last (analyzedFrames H sl))"
  using assms by (simp add: bucket_frame_def frameForTimestamp_def NUMBER_OF_THUMBNAILS_def)

lemma sorted_wrt_last:
  assumes "sorted_wrt R xs" and "x \<in> set xs"
  shows "x = last xs \<or> R x (last xs)"
  using assms by (induction xs) auto

lemma js_le_refl: "js_le x y \<Longrightarrow> js_le x x"
  by (cases x; cases y) simp_all

lemma js_lt_irrefl: "\<not> js_lt x x"
  by (cases x) simp_all

lemma js_le_not_lt: "js_le x y \<Longrightarrow> \<not> js_lt y x"
  by (cases x; cases y) simp_all

text \<open>
  C1. For a timeline with at least one analyzed frame, the frame of each bucket
  \<open>i\<close> from 1 to 9 is the last one, in the order of the timeline, of the analyzed
  frames whose timestamp is at or before the target \<open>beginning + timelineEnd * i / 10\<close>
  (none when there is no such frame), whatever frames come after the target; the frame of
  bucket 10 is the last analyzed frame, whatever its timestamp. When the timeline is in
  ascending order of timestamp, the frame of a bucket from 1 to 9 is the latest analyzed
  frame at or before the target, and the frame of bucket 10 is chronologically last. The
  target is the double that the sum, the product and the quotient of the code give.
\<close>

theorem sampler_selection:
  assumes "analyzedFrames H sl \<noteq> []"
  shows "(\<forall>i \<in> {1..9}.
            let T = js_add (beginning sl)
                      (js_div (js_mul (timelineEnd H sl opt) (Num (of_nat i))) (Num 10));
                before = frames_at_or_before H (analyzedFrames H sl) T
            in bucket_frame H sl opt i = (if before = [] then None else Some (last before))
               \<and> (ascending H (analyzedFrames H sl) \<longrightarrow>
                    (\<forall>r. bucket_frame H sl opt i = Some r \<longrightarrow>
                       r \<in> set (analyzedFrames H sl)
                       \<and> js_le (getTimeStamp (H r)) T
                       \<and> (\<forall>r' \<in> set (analyzedFrames H sl).
                             js_le (getTimeStamp (H r')) T \<longrightarrow>
                             js_le (getTimeStamp (H r')) (getTimeStamp (H r))))))
     \<and> bucket_frame H sl opt 10 = Some (last (analyzedFrames H sl))
     \<and> (ascending H (analyzedFrames H sl) \<longrightarrow>
          (\<forall>r' \<in> set (analyzedFrames H sl).
                \<not> js_lt (getTimeStamp (H (last (analyzedFrames H sl)))) (getTimeStamp (H r'))))"
proof (intro conjI impI ballI)
  fix i :: nat
  assume i: "i \<in> {1..9}"
  define T where "T = js_add (beginning sl)
                      (js_div (js_mul (timelineEnd H sl opt) (Num (of_nat i))) (Num 10))"
  let ?P = "\<lambda>r. js_le (getTimeStamp (H r)) T"
  let ?fs = "frames_at_or_before H (analyzedFrames H sl) T"
  from i have "i \<noteq> 10" by simp
  note eq = bucket_frame_eq[OF this T_def]
  have best: "r \<in> set (analyzedFrames H sl) \<and> ?P r
      \<and> (\<forall>r' \<in> set (analyzedFrames H sl). ?P r' \<longrightarrow>
            js_le (getTimeStamp (H r')) (getTimeStamp (H r)))"
    if asc: "ascending H (analyzedFrames H sl)" and sel: "bucket_frame H sl opt i = Some r" for r
  proof (intro conjI ballI impI)
    from sel eq have ne: "?fs \<noteq> []" and r: "r = last ?fs"
      by (auto split: if_splits)
    then have mem: "r \<in> set ?fs" by simp
    then show "r \<in> set (analyzedFrames H sl)" and le: "?P r"
      by (simp_all add: frames_at_or_before_def)
    have sorted: "sorted_wrt (\<lambda>a b. js_le (getTimeStamp (H a)) (getTimeStamp (H b))) ?fs"
      using asc unfolding ascending_def frames_at_or_before_def by (rule sorted_wrt_filter)
    fix r'
    assume "r' \<in> set (analyzedFrames H sl)" and "?P r'"
    then have "r' \<in> set ?fs" by (simp add: frames_at_or_before_def)
    from sorted_wrt_last[OF sorted this] r le
    show "js_le (getTimeStamp (H r')) (getTimeStamp (H r))"
      by (auto intro: js_le_refl)
  qed
  show "let T = js_add (beginning sl)
                      (js_div (js_mul (timelineEnd H sl opt) (Num (of_nat i))) (Num 10));
            before = frames_at_or_before H (analyzedFrames H sl) T
        in bucket_frame H sl opt i = (if before = [] then None else Some (last before))
           \<and> (ascending H (analyzedFrames H sl) \<longrightarrow>
                (\<forall>r. bucket_frame H sl opt i = Some r \<longrightarrow>
                   r \<in> set (analyzedFrames H sl)
                   \<and> js_le (getTimeStamp (H r)) T
                   \<and> (\<forall>r' \<in> set (analyzedFrames H sl).
                         js_le (getTimeStamp (H r')) T \<longrightarrow>
                         js_le (getTimeStamp (H r')) (getTimeStamp (H r)))))"
    unfolding Let_def T_def[symmetric] using eq best by blast
next
  show "bucket_frame H sl opt 10 = Some (last (analyzedFrames H sl))"
    by (rule bucket_frame_last[OF assms])
next
  fix r'
  assume asc: "ascending H (analyzedFrames H sl)" and "r' \<in> set (analyzedFrames H sl)"
  from sorted_wrt_last[OF asc[unfolded ascending_def] this(2)]
  show "\<not> js_lt (getTimeStamp (H (last (analyzedFrames H sl)))) (getTimeStamp (H r'))"
    by (auto simp: js_lt_irrefl dest: js_le_not_lt)
qed

theorem sampler_selection_witness:
  "analyzedFrames example_store example_speedline \<noteq> []
   \<and> ascending example_store (analyzedFrames example_store example_speedline)
   \<and> (9::nat) \<in> {1..9}
   \<and> js_add (beginning example_speedline)
        (js_div (js_mul (timelineEnd example_store example_speedline None) (Num (of_nat 9)))
           (Num 10)) = Num 2700
   \<and> frames_at_or_before example_store [0, 1, 3] (Num 2700) = [0, 1]
   \<and> bucket_frame example_store example_speedline None 9 = Some 1
   \<and> bucket_frame example_store example_speedline None 10 = Some 3"
proof -
  have a: "analyzedFrames example_store example_speedline \<noteq> []"
    by (simp add: example_analyzed)
  have asc: "ascending example_store (analyzedFrames example_store example_speedline)"
    by (simp add: example_analyzed ascending_def example_store_def)
  have t: "js_add (beginning example_speedline)
        (js_div (js_mul (timelineEnd example_store example_speedline None) (Num (of_nat 9)))
           (Num 10)) = Num 2700"
    unfolding example_timelineEnd by (simp add: example_speedline_def)
  have f: "frames_at_or_before example_store [0, 1, 3] (Num 2700) = [0, 1]"
    by (simp add: frames_at_or_before_def example_store_def)
  have nine: "(9::nat) \<in> {1..9}" by simp
  from sampler_selection[OF a, of None]
  have "\<forall>i \<in> {1..9}.
            let T = js_add (beginning example_speedline)
                      (js_div (js_mul (timelineEnd example_store example_speedline None)
                         (Num (of_nat i))) (Num 10));
                before = frames_at_or_before example_store
                           (analyzedFrames example_store example_speedline) T
            in bucket_frame example_store example_speedline None i
                 = (if before = [] then None else Some (last before))"
    and ten: "bucket_frame example_store example_speedline None 10
           = Some (last (analyzedFrames example_store example_speedline))"
    by (simp_all add: Let_def)
  from this(1)[rule_format, OF nine, unfolded Let_def t example_analyzed f]
  have "bucket_frame example_store example_speedline None 9 = Some 1" by simp
  with ten a asc t f nine show ?thesis
    by (simp add: example_analyzed)
qed
section \<open>Properties of the error classification\<close>

text \<open>
  C3. Whatever error \<open>_audit\<close> throws (an error of the speedline request included): when
  its code is one of \<open>NO_SCREENSHOTS\<close>, \<open>SPEEDINDEX_OF_ZERO\<close>, \<open>NO_SPEEDLINE_FRAMES\<close>,
  \<open>INVALID_SPEEDLINE\<close> and the gather mode is \<open>timespan\<close>, \<open>audit\<close> returns
  \<open>{notApplicable: true, score: 1}\<close>; for any other code, or no code, or any other mode
  (\<open>navigation\<close> in particular), \<open>audit\<close> throws the same error.
\<close>

theorem audit_classifies_errors:
  assumes "underscore_audit enc H req opt = Inl err"
  shows "audit enc H req opt mode =
     (if (code err = Some NO_SCREENSHOTS \<or> code err = Some SPEEDINDEX_OF_ZERO
          \<or> code err = Some NO_SPEEDLINE_FRAMES \<or> code err = Some INVALID_SPEEDLINE)
         \<and> mode = timespan
      then Inr \<lparr>score = Num 1, notApplicable = Some True, details = None\<rparr>
      else Inl err)
     \<and> (\<forall>e. req = Inl e \<longrightarrow> err = e)"
  using assms
  by (auto simp: audit_def has_code_def noFramesErrors_def underscore_audit_def
      underscore_audit_run_def split: option.splits)

theorem audit_classifies_errors_witness:
  "underscore_audit example_encoder example_store (Inl (LighthouseError NO_SCREENSHOTS)) None
     = Inl (LighthouseError NO_SCREENSHOTS)
   \<and> audit example_encoder example_store (Inl (LighthouseError NO_SCREENSHOTS)) None timespan
     = Inr \<lparr>score = Num 1, notApplicable = Some True, details = None\<rparr>
   \<and> audit example_encoder example_store (Inl (LighthouseError NO_SCREENSHOTS)) None navigation
     = Inl (LighthouseError NO_SCREENSHOTS)"
proof -
  have h: "underscore_audit example_encoder example_store
      (Inl (LighthouseError NO_SCREENSHOTS)) None = Inl (LighthouseError NO_SCREENSHOTS)"
    by (simp add: underscore_audit_def underscore_audit_run_def)
  from audit_classifies_errors[OF h, of timespan] audit_classifies_errors[OF h, of navigation] h
  show ?thesis by simp
qed

lemma first_bucket_null:
  assumes "analyzedFrames H sl \<noteq> []" and "isFinite (timelineEnd H sl opt)"
    and "frames_at_or_before H (analyzedFrames H sl)
           (js_add (beginning sl) (js_div (js_mul (timelineEnd H sl opt) (Num 1)) (Num 10))) = []"
  shows "underscore_audit_run enc H (Inr sl) opt
     = (Inl (TypeError ''Cannot read properties of null''), [])"
proof -
  have sel: "frameForTimestamp H (analyzedFrames H sl)
      (targetTimestamp sl (timelineEnd H sl opt) 1) 1 = None"
    using bucket_frame_eq[of 1 _ sl H opt] assms(3)
    by (simp add: bucket_frame_def bucket_target_def)
  have "bucket enc H sl (timelineEnd H sl opt) (analyzedFrames H sl)
       \<lparr>cachedThumbnails = Map.empty, thumbnails = []\<rparr> [] 1
     = (Inl (TypeError ''Cannot read properties of null''), [])"
    unfolding bucket_def Let_def sel by (simp add: get_base64Data_def cache_get_def)
  then show ?thesis
    unfolding run_valid[OF assms(1,2)] buckets_list by simp
qed

text \<open>
  C10, as the code has it. When the timeline has an analyzed frame, its end is finite,
  and no analyzed frame has a timestamp at or before the target of the first bucket (the
  double that \<open>beginning + timelineEnd * 1 / 10\<close> gives), that bucket has no frame and \<open>_audit\<close> throws the \<open>TypeError\<close> of calling a method of
  \<open>null\<close>, before any scaling or encoding; the error has no code, so \<open>audit\<close> throws it
  in \<open>timespan\<close> mode too.
\<close>

theorem null_frame_propagates:
  assumes "analyzedFrames H sl \<noteq> []" and "isFinite (timelineEnd H sl opt)"
    and "frames_at_or_before H (analyzedFrames H sl)
           (js_add (beginning sl) (js_div (js_mul (timelineEnd H sl opt) (Num 1)) (Num 10))) = []"
  shows "bucket_frame H sl opt 1 = None
     \<and> (\<exists>msg. underscore_audit_run enc H (Inr sl) opt = (Inl (TypeError msg), [])
          \<and> code (TypeError msg) = None
          \<and> audit enc H (Inr sl) opt timespan = Inl (TypeError msg))"
proof -
  have "bucket_frame H sl opt 1 = None"
    using bucket_frame_eq[of 1 _ sl H opt] assms(3) by simp
  moreover have "audit enc H (Inr sl) opt timespan = Inl (TypeError ''Cannot read properties of null'')"
    using first_bucket_null[OF assms, of enc]
    by (simp add: audit_def underscore_audit_def has_code_def)
  ultimately show ?thesis
    using first_bucket_null[OF assms, of enc] by simp
qed

theorem null_frame_propagates_witness:
  "analyzedFrames example_store (example_speedline\<lparr>frames := [1, 2, 3]\<rparr>) \<noteq> []
   \<and> isFinite (timelineEnd example_store (example_speedline\<lparr>frames := [1, 2, 3]\<rparr>) None)
   \<and> js_add (beginning (example_speedline\<lparr>frames := [1, 2, 3]\<rparr>))
        (js_div (js_mul (timelineEnd example_store (example_speedline\<lparr>frames := [1, 2, 3]\<rparr>) None)
           (Num 1)) (Num 10)) = Num 300
   \<and> frames_at_or_before example_store [1, 3] (Num 300) = []
   \<and> bucket_frame example_store (example_speedline\<lparr>frames := [1, 2, 3]\<rparr>) None 1 = None
   \<and> (\<exists>msg. audit example_encoder example_store
                (Inr (example_speedline\<lparr>frames := [1, 2, 3]\<rparr>)) None timespan
              = Inl (TypeError msg))"
proof -
  let ?sl = "example_speedline\<lparr>frames := [1, 2, 3]\<rparr>"
  have a: "analyzedFrames example_store ?sl = [1, 3]"
    by (simp add: analyzedFrames_def example_store_def example_speedline_def)
  have te: "timelineEnd example_store ?sl None = Num 3000"
    by (simp add: timelineEnd_def maxFrameTime_def minimumTimelineDuration_def Math_max_def
        example_store_def example_speedline_def js_sub_def)
  have t: "js_add (beginning ?sl) (js_div (js_mul (timelineEnd example_store ?sl None) (Num 1))
      (Num 10)) = Num 300"
    unfolding te by (simp add: example_speedline_def)
  have f: "frames_at_or_before example_store [1, 3] (Num 300) = []"
    by (simp add: frames_at_or_before_def example_store_def)
  have h1: "analyzedFrames example_store ?sl \<noteq> []" using a by simp
  have h2: "isFinite (timelineEnd example_store ?sl None)" using te by simp
  have h3: "frames_at_or_before example_store (analyzedFrames example_store ?sl)
      (js_add (beginning ?sl) (js_div (js_mul (timelineEnd example_store ?sl None) (Num 1))
      (Num 10))) = []"
    unfolding t a by (rule f)
  from null_frame_propagates[OF h1 h2 h3, of example_encoder] h1 h2 t f show ?thesis
    by blast
qed

text \<open>The claim without the finite timeline end fails: with a beginning that is not a
  number the timeline end is \<open>NaN\<close>, no timestamp is at or before the first target, and
  \<open>_audit\<close> throws \<open>INVALID_SPEEDLINE\<close>, which \<open>audit\<close> turns into "not applicable" in
  \<open>timespan\<close> mode.\<close>

theorem null_frame_propagates_counterexample:
  "analyzedFrames example_store (example_speedline\<lparr>beginning := NaN\<rparr>) = [0, 1, 3]
   \<and> frames_at_or_before example_store [0, 1, 3]
        (js_add (beginning (example_speedline\<lparr>beginning := NaN\<rparr>))
           (js_div (js_mul (timelineEnd example_store (example_speedline\<lparr>beginning := NaN\<rparr>) None)
              (Num 1)) (Num 10))) = []
   \<and> underscore_audit example_encoder example_store
        (Inr (example_speedline\<lparr>beginning := NaN\<rparr>)) None
       = Inl (LighthouseError INVALID_SPEEDLINE)
   \<and> audit example_encoder example_store
        (Inr (example_speedline\<lparr>beginning := NaN\<rparr>)) None timespan
       = Inr \<lparr>score = Num 1, notApplicable = Some True, details = None\<rparr>"
proof -
  let ?sl = "example_speedline\<lparr>beginning := NaN\<rparr>"
  have a: "analyzedFrames example_store ?sl = [0, 1, 3]"
    by (simp add: analyzedFrames_def example_store_def example_speedline_def)
  have te: "timelineEnd example_store ?sl None = NaN"
    by (simp add: timelineEnd_def maxFrameTime_def minimumTimelineDuration_def Math_max_def
        example_store_def example_speedline_def js_sub_def)
  have f: "frames_at_or_before example_store [0, 1, 3]
        (js_add (beginning ?sl) (js_div (js_mul (timelineEnd example_store ?sl None) (Num 1))
           (Num 10))) = []"
    unfolding frames_at_or_before_def te
    by (simp add: example_store_def example_speedline_def)
  have run: "underscore_audit_run example_encoder example_store (Inr ?sl) None
      = (Inl (LighthouseError INVALID_SPEEDLINE), [])"
    by (rule run_invalid) (simp add: te)
  then have "audit example_encoder example_store (Inr ?sl) None timespan
       = Inr \<lparr>score = Num 1, notApplicable = Some True, details = None\<rparr>"
    by (simp add: audit_def underscore_audit_def has_code_def noFramesErrors_def)
  with a f run show ?thesis by (simp add: underscore_audit_def)
qed
section \<open>Properties of the result\<close>

lemma cache_sound_empty: "cache_sound enc H \<lparr>cachedThumbnails = Map.empty, thumbnails = []\<rparr>"
  by (simp add: cache_sound_def)

lemma trace_ok_empty: "trace_ok \<lparr>cachedThumbnails = Map.empty, thumbnails = []\<rparr> []"
  by (simp add: trace_ok_def)

lemma run_success:
  assumes "underscore_audit_run enc H (Inr sl) opt = (Inr p, tr)"
  shows "analyzedFrames H sl \<noteq> []" and "isFinite (timelineEnd H sl opt)"
    and "\<exists>st. buckets enc H sl (timelineEnd H sl opt) (analyzedFrames H sl)
             \<lparr>cachedThumbnails = Map.empty, thumbnails = []\<rparr> []
             [1..<Suc NUMBER_OF_THUMBNAILS] = (Inr st, tr)
          \<and> p = \<lparr>score = Num 1, notApplicable = None,
                details = Some \<lparr>details_type = ''filmstrip'',
                                details_scale = timelineEnd H sl opt,
                                details_items = thumbnails st\<rparr>\<rparr>"
proof -
  show a: "analyzedFrames H sl \<noteq> []" and f: "isFinite (timelineEnd H sl opt)"
    using assms run_invalid[of H sl opt enc] by auto
  show "\<exists>st. buckets enc H sl (timelineEnd H sl opt) (analyzedFrames H sl)
             \<lparr>cachedThumbnails = Map.empty, thumbnails = []\<rparr> []
             [1..<Suc NUMBER_OF_THUMBNAILS] = (Inr st, tr)
          \<and> p = \<lparr>score = Num 1, notApplicable = None,
                details = Some \<lparr>details_type = ''filmstrip'',
                                details_scale = timelineEnd H sl opt,
                                details_items = thumbnails st\<rparr>\<rparr>"
    using assms unfolding run_valid[OF a f]
    by (auto split: prod.splits sum.splits)
qed

lemma run_items:
  assumes "underscore_audit_run enc H (Inr sl) opt = (Inr p, tr)"
  shows "\<exists>its. p = \<lparr>score = Num 1, notApplicable = None,
                details = Some \<lparr>details_type = ''filmstrip'',
                                details_scale = timelineEnd H sl opt,
                                details_items = its\<rparr>\<rparr>
     \<and> list_all2 (pushed enc H sl (timelineEnd H sl opt) (analyzedFrames H sl))
          [1..<Suc NUMBER_OF_THUMBNAILS] its"
proof -
  from run_success(3)[OF assms] obtain st where
    b: "buckets enc H sl (timelineEnd H sl opt) (analyzedFrames H sl)
             \<lparr>cachedThumbnails = Map.empty, thumbnails = []\<rparr> []
             [1..<Suc NUMBER_OF_THUMBNAILS] = (Inr st, tr)"
    and p: "p = \<lparr>score = Num 1, notApplicable = None,
                details = Some \<lparr>details_type = ''filmstrip'',
                                details_scale = timelineEnd H sl opt,
                                details_items = thumbnails st\<rparr>\<rparr>"
    by blast
  from buckets_sound[OF cache_sound_empty b] p show ?thesis by simp
qed

text \<open>The scaler returns on an image of the size of a JPEG image.\<close>

lemma scale_succeeds:
  assumes "jpeg_sized R"
  shows "\<exists>t. scaleImageToThumbnail R = Inr t"
proof -
  from assms have w: "1 \<le> width R" "width R \<le> 65535" and h: "height R \<le> 65535"
    by (simp_all add: jpeg_sized_def)
  from scaleFactor_bounds[OF w] obtain s
    where sf: "js_div (Num (of_nat (width R))) (Num 120) = Num s"
      and s: "1 / 128 \<le> s" "s \<le> 1024"
    by blast
  from scaledHeight_bounds[OF h s] obtain k
    where "Math_floor (js_div (Num (of_nat (height R))) (Num s)) = Num (of_nat k)" "k < 2 ^ 24"
    by blast
  from scale_result[OF sf this] show ?thesis by blast
qed

lemma run_succeeds:
  assumes "analyzedFrames H sl \<noteq> []" and "isFinite (timelineEnd H sl opt)"
    and "\<forall>i \<in> set [1..<Suc NUMBER_OF_THUMBNAILS]. \<exists>r. bucket_frame H sl opt i = Some r
           \<and> jpeg_sized (getParsedImage (H r))"
  shows "\<exists>p. underscore_audit enc H (Inr sl) opt = Inr p"
proof -
  have "\<forall>i \<in> set [1..<Suc NUMBER_OF_THUMBNAILS].
      \<exists>r t. frameForTimestamp H (analyzedFrames H sl)
                (targetTimestamp sl (timelineEnd H sl opt) i) i = Some r
             \<and> scaleImageToThumbnail (getParsedImage (H r)) = Inr t"
    using assms(3) scale_succeeds unfolding bucket_frame_def bucket_target_def by blast
  from buckets_success[OF this, of enc "\<lparr>cachedThumbnails = Map.empty, thumbnails = []\<rparr>" "[]"]
  show ?thesis
    unfolding underscore_audit_def run_valid[OF assms(1,2)] by auto
qed

lemma example_image_size: "jpeg_sized (getParsedImage (example_store r))"
  by (simp add: example_store_def example_image_def jpeg_sized_def)

lemma example_run_succeeds:
  "\<exists>p. underscore_audit enc example_store (Inr example_speedline) None = Inr p"
proof (rule run_succeeds)
  show "analyzedFrames example_store example_speedline \<noteq> []"
    by (simp add: example_analyzed)
  show "isFinite (timelineEnd example_store example_speedline None)"
    by (simp add: example_timelineEnd)
  have "\<forall>x \<in> set (map (bucket_frame example_store example_speedline None)
      [1, 2, 3, 4, 5, 6, 7, 8, 9, 10]). \<exists>r. x = Some r"
    unfolding example_frames by simp
  then show "\<forall>i \<in> set [1..<Suc NUMBER_OF_THUMBNAILS].
      \<exists>r. bucket_frame example_store example_speedline None i = Some r
           \<and> jpeg_sized (getParsedImage (example_store r))"
    unfolding buckets_list using example_image_size by simp
qed

text \<open>
  C8. When \<open>_audit\<close> succeeds, the result has score 1 and the details
  \<open>{type: 'filmstrip', scale: timelineEnd, items}\<close>, where \<open>items\<close> holds, in the order
  of the buckets 1 to 10, for the frame \<open>r\<close> of bucket \<open>i\<close> and its target timestamp
  \<open>beginning + timelineEnd * i / 10\<close>: \<open>timing = round (target - beginning)\<close>,
  \<open>timestamp = target * 1000\<close>, and \<open>data\<close> the string \<open>data:image/jpeg;base64,\<close>
  followed by the encoding (quality 90) of the scaled image of \<open>r\<close>. Every operation is
  the one of the code, on doubles.
\<close>

theorem assembled_result:
  assumes "underscore_audit enc H (Inr sl) opt = Inr p"
  shows "score p = Num 1 \<and> notApplicable p = None
     \<and> (\<exists>its. details p = Some \<lparr>details_type = ''filmstrip'',
                                 details_scale = timelineEnd H sl opt,
                                 details_items = its\<rparr>
          \<and> length its = 10
          \<and> (\<forall>i \<in> {1..10}.
                let T = js_add (beginning sl)
                          (js_div (js_mul (timelineEnd H sl opt) (Num (of_nat i))) (Num 10))
                in \<exists>r t. bucket_frame H sl opt i = Some r
                     \<and> frameForTimestamp H (analyzedFrames H sl) T i = Some r
                     \<and> scaleImageToThumbnail (getParsedImage (H r)) = Inr t
                     \<and> its ! (i - 1) =
                         \<lparr>timing = Math_round (js_sub T (beginning sl)),
                          timestamp = js_mul T (Num 1000),
                          item_data = ''data:image/jpeg;base64,'' @ enc t 90\<rparr>))"
proof -
  from assms have "underscore_audit_run enc H (Inr sl) opt
      = (Inr p, snd (underscore_audit_run enc H (Inr sl) opt))"
    by (simp add: underscore_audit_def prod_eq_iff)
  from run_items[OF this] obtain its where
    p: "p = \<lparr>score = Num 1, notApplicable = None,
                details = Some \<lparr>details_type = ''filmstrip'',
                                details_scale = timelineEnd H sl opt,
                                details_items = its\<rparr>\<rparr>"
    and all: "list_all2 (pushed enc H sl (timelineEnd H sl opt) (analyzedFrames H sl))
          [1..<Suc NUMBER_OF_THUMBNAILS] its"
    by blast
  from all have len: "length its = 10"
    by (auto dest: list_all2_lengthD simp: NUMBER_OF_THUMBNAILS_def)
  have item: "let T = js_add (beginning sl)
                          (js_div (js_mul (timelineEnd H sl opt) (Num (of_nat i))) (Num 10))
              in \<exists>r t. bucket_frame H sl opt i = Some r
                     \<and> frameForTimestamp H (analyzedFrames H sl) T i = Some r
                     \<and> scaleImageToThumbnail (getParsedImage (H r)) = Inr t
                     \<and> its ! (i - 1) =
                         \<lparr>timing = Math_round (js_sub T (beginning sl)),
                          timestamp = js_mul T (Num 1000),
                          item_data = ''data:image/jpeg;base64,'' @ enc t 90\<rparr>"
    if "i \<in> {1..10}" for i
  proof -
    from that have i: "1 \<le> i" "i \<le> 10" by simp_all
    then have k: "i - 1 < length [1..<Suc NUMBER_OF_THUMBNAILS]"
      by (simp add: NUMBER_OF_THUMBNAILS_def del: upt_Suc)
    from i have nth: "[1..<Suc NUMBER_OF_THUMBNAILS] ! (i - 1) = i"
      by (simp add: NUMBER_OF_THUMBNAILS_def nth_upt del: upt_Suc)
    have T: "targetTimestamp sl (timelineEnd H sl opt) i =
        js_add (beginning sl) (js_div (js_mul (timelineEnd H sl opt) (Num (of_nat i))) (Num 10))"
      by (simp add: targetTimestamp_def NUMBER_OF_THUMBNAILS_def)
    from list_all2_nthD[OF all k] nth
    have "pushed enc H sl (timelineEnd H sl opt) (analyzedFrames H sl) i (its ! (i - 1))"
      by simp
    then show ?thesis
      unfolding pushed_def thumbnail_item_def bucket_frame_def bucket_target_def Let_def T
      by blast
  qed
  from p len item show ?thesis by simp
qed

theorem assembled_result_witness:
  "\<exists>p. underscore_audit example_encoder example_store (Inr example_speedline) None = Inr p
     \<and> score p = Num 1
     \<and> (\<exists>its. details p = Some \<lparr>details_type = ''filmstrip'', details_scale = Num 3000,
                                 details_items = its\<rparr>
          \<and> length its = 10
          \<and> timing (its ! 0) = Num 300 \<and> timestamp (its ! 0) = Num 300000
          \<and> item_data (its ! 0) = ''data:image/jpeg;base64,/9j/'')"
proof -
  from example_run_succeeds obtain p where
    p: "underscore_audit example_encoder example_store (Inr example_speedline) None = Inr p"
    by blast
  from assembled_result[OF p] obtain its where
    its: "score p = Num 1"
    "details p = Some \<lparr>details_type = ''filmstrip'',
        details_scale = timelineEnd example_store example_speedline None, details_items = its\<rparr>"
    "length its = 10"
    and all: "\<forall>i \<in> {1..10}.
                let T = js_add (beginning example_speedline)
                          (js_div (js_mul (timelineEnd example_store example_speedline None)
                             (Num (of_nat i))) (Num 10))
                in \<exists>r t. bucket_frame example_store example_speedline None i = Some r
                     \<and> frameForTimestamp example_store
                         (analyzedFrames example_store example_speedline) T i = Some r
                     \<and> scaleImageToThumbnail (getParsedImage (example_store r)) = Inr t
                     \<and> its ! (i - 1) =
                         \<lparr>timing = Math_round (js_sub T (beginning example_speedline)),
                          timestamp = js_mul T (Num 1000),
                          item_data = ''data:image/jpeg;base64,'' @ example_encoder t 90\<rparr>"
    by blast
  have t1: "js_add (beginning example_speedline)
      (js_div (js_mul (timelineEnd example_store example_speedline None) (Num (of_nat 1)))
         (Num 10)) = Num 300"
    unfolding example_timelineEnd by (simp add: example_speedline_def)
  have b0: "beginning example_speedline = Num 0"
    by (simp add: example_speedline_def)
  have "(1::nat) \<in> {1..10}" by simp
  from all[rule_format, OF this, unfolded Let_def t1] obtain r t where
    "its ! (1 - 1) =
       \<lparr>timing = Math_round (js_sub (Num 300) (beginning example_speedline)),
        timestamp = js_mul (Num 300) (Num 1000),
        item_data = ''data:image/jpeg;base64,'' @ example_encoder t 90\<rparr>"
    by blast
  then have "timing (its ! 0) = Num 300 \<and> timestamp (its ! 0) = Num 300000
          \<and> item_data (its ! 0) = ''data:image/jpeg;base64,/9j/''"
    unfolding b0 by (simp add: example_encoder_def js_sub_def)
  with p its show ?thesis
    by (simp add: example_timelineEnd)
qed

lemma distinct_count_one: "distinct xs \<Longrightarrow> x \<in> set xs \<Longrightarrow> count_list xs x = 1"
  by (induction xs) auto

lemma distinct_count_le: "distinct xs \<Longrightarrow> count_list xs x \<le> 1"
  by (induction xs) auto

lemma run_trace_distinct:
  assumes "never_empty enc"
  shows "distinct (snd (underscore_audit_run enc H (Inr sl) opt))"
proof (cases "analyzedFrames H sl = [] \<or> \<not> isFinite (timelineEnd H sl opt)")
  case True
  then show ?thesis by (simp add: run_invalid)
next
  case False
  then have a: "analyzedFrames H sl \<noteq> []" and f: "isFinite (timelineEnd H sl opt)"
    by simp_all
  obtain res tr where b: "buckets enc H sl (timelineEnd H sl opt) (analyzedFrames H sl)
             \<lparr>cachedThumbnails = Map.empty, thumbnails = []\<rparr> []
             [1..<Suc NUMBER_OF_THUMBNAILS] = (res, tr)"
    by (cases "buckets enc H sl (timelineEnd H sl opt) (analyzedFrames H sl)
             \<lparr>cachedThumbnails = Map.empty, thumbnails = []\<rparr> []
             [1..<Suc NUMBER_OF_THUMBNAILS]")
  have "distinct tr"
  proof (cases res)
    case (Inl e)
    with b buckets_trace_error[OF assms trace_ok_empty] show ?thesis by blast
  next
    case (Inr st)
    with b buckets_trace[OF assms trace_ok_empty] show ?thesis
      unfolding trace_ok_def by blast
  qed
  then show ?thesis
    unfolding run_valid[OF a f] b by (simp split: sum.splits)
qed

lemma run_trace_selected:
  assumes "never_empty enc" and "underscore_audit_run enc H (Inr sl) opt = (Inr p, tr)"
    and "i \<in> {1..10}"
  shows "\<exists>r. bucket_frame H sl opt i = Some r \<and> Scale r \<in> set tr \<and> Encode r \<in> set tr"
proof -
  from run_success(3)[OF assms(2)] obtain st where
    b: "buckets enc H sl (timelineEnd H sl opt) (analyzedFrames H sl)
             \<lparr>cachedThumbnails = Map.empty, thumbnails = []\<rparr> []
             [1..<Suc NUMBER_OF_THUMBNAILS] = (Inr st, tr)"
    by blast
  from assms(3) have "i \<in> set [1..<Suc NUMBER_OF_THUMBNAILS]"
    by (simp add: NUMBER_OF_THUMBNAILS_def del: upt_Suc)
  with buckets_trace[OF assms(1) trace_ok_empty b] obtain r where
    "trace_ok st tr" "bucket_frame H sl opt i = Some r" "r \<in> dom (cachedThumbnails st)"
    unfolding bucket_frame_def bucket_target_def by blast
  then show ?thesis
    unfolding trace_ok_def by blast
qed

text \<open>
  C4. With an encoder that never returns the empty payload, no frame is scaled twice or
  encoded twice in a build (whether it succeeds or throws); when the build succeeds, the
  frame of each bucket has been scaled exactly once and encoded exactly once, however
  many buckets have that frame.
\<close>

theorem frame_encoded_once:
  assumes "never_empty enc"
  shows "(\<forall>r. count_list (snd (underscore_audit_run enc H (Inr sl) opt)) (Scale r) \<le> 1
            \<and> count_list (snd (underscore_audit_run enc H (Inr sl) opt)) (Encode r) \<le> 1)
     \<and> (\<forall>p. underscore_audit enc H (Inr sl) opt = Inr p \<longrightarrow>
           (\<forall>i \<in> {1..10}. \<exists>r. bucket_frame H sl opt i = Some r
              \<and> count_list (snd (underscore_audit_run enc H (Inr sl) opt)) (Scale r) = 1
              \<and> count_list (snd (underscore_audit_run enc H (Inr sl) opt)) (Encode r) = 1))"
proof -
  let ?tr = "snd (underscore_audit_run enc H (Inr sl) opt)"
  have d: "distinct ?tr" by (rule run_trace_distinct[OF assms])
  have "\<exists>r. bucket_frame H sl opt i = Some r
              \<and> count_list ?tr (Scale r) = 1 \<and> count_list ?tr (Encode r) = 1"
    if "underscore_audit enc H (Inr sl) opt = Inr p" "i \<in> {1..10}" for p i
  proof -
    from that(1) have "underscore_audit_run enc H (Inr sl) opt = (Inr p, ?tr)"
      by (simp add: underscore_audit_def prod_eq_iff)
    from run_trace_selected[OF assms this that(2)] show ?thesis
      using distinct_count_one[OF d] by blast
  qed
  with distinct_count_le[OF d] show ?thesis by blast
qed

theorem frame_encoded_once_witness:
  "never_empty example_encoder
   \<and> (1::nat) \<in> {1..10} \<and> (2::nat) \<in> {1..10}
   \<and> bucket_frame example_store example_speedline None 1 = Some 0
   \<and> bucket_frame example_store example_speedline None 2 = Some 0
   \<and> count_list (snd (underscore_audit_run example_encoder example_store
         (Inr example_speedline) None)) (Encode 0) = 1
   \<and> count_list (snd (underscore_audit_run example_encoder example_store
         (Inr example_speedline) None)) (Scale 0) = 1"
proof -
  have ne: "never_empty example_encoder" by (simp add: never_empty_def example_encoder_def)
  from example_run_succeeds obtain p where
    p: "underscore_audit example_encoder example_store (Inr example_speedline) None = Inr p"
    by blast
  have f: "bucket_frame example_store example_speedline None 1 = Some 0"
    "bucket_frame example_store example_speedline None 2 = Some 0"
    using example_frames by simp_all
  have one: "(1::nat) \<in> {1..10}" and two: "(2::nat) \<in> {1..10}" by simp_all
  from frame_encoded_once[OF ne, of example_store example_speedline None] p one
  have "\<exists>r. bucket_frame example_store example_speedline None 1 = Some r
      \<and> count_list (snd (underscore_audit_run example_encoder example_store
         (Inr example_speedline) None)) (Scale r) = 1
      \<and> count_list (snd (underscore_audit_run example_encoder example_store
         (Inr example_speedline) None)) (Encode r) = 1"
    by blast
  with f ne one two show ?thesis by auto
qed
section \<open>Properties of the timings\<close>

lemma pushed_timings:
  assumes "list_all2 (pushed enc H sl te an) is its"
  shows "map timing its = map (\<lambda>i. Math_round (js_sub (targetTimestamp sl te i) (beginning sl))) is"
  using assms
  by (induction rule: list_all2_induct) (auto simp: pushed_def thumbnail_item_def)

lemma run_timings:
  assumes "underscore_audit enc H (Inr sl) opt = Inr p"
  shows "product_timings (Inr p) =
     map (\<lambda>i. Math_round (js_sub (bucket_target H sl opt i) (beginning sl)))
       [1..<Suc NUMBER_OF_THUMBNAILS]"
proof -
  from assms have "underscore_audit_run enc H (Inr sl) opt
      = (Inr p, snd (underscore_audit_run enc H (Inr sl) opt))"
    by (simp add: underscore_audit_def prod_eq_iff)
  from run_items[OF this] pushed_timings show ?thesis
    unfolding product_timings_def bucket_target_def by fastforce
qed

text \<open>The timing of bucket \<open>i\<close>, for a beginning and a timeline end of at most \<open>2^40\<close> ms in
  magnitude: the four roundings (of the product, the quotient, the sum and the
  difference) move it by less than \<open>1/256\<close> from \<open>T * i / 10\<close>, before
  \<open>Math.round\<close>.\<close>

lemma fl_abs_numeral:
  assumes "\<bar>q\<bar> \<le> 2 ^ n" and "n \<le> 1000"
  obtains r where "fl q = Num r" and "\<bar>r - q\<bar> \<le> 2 ^ n / 2 ^ 52"
proof -
  have "(2::rat) ^ n \<le> 2 ^ 1000" using assms(2) by (intro power_increasing) simp_all
  from fl_abs[OF assms(1) _ this] that show ?thesis by auto
qed

lemma timing_error:
  fixes T b :: rat and i :: nat
  assumes T: "0 \<le> T" "T \<le> 2 ^ 40" and b: "\<bar>b\<bar> \<le> 2 ^ 40" and i: "i \<le> 10"
  obtains x where
    "js_sub (js_add (Num b) (js_div (js_mul (Num T) (Num (of_nat i))) (Num 10))) (Num b) = Num x"
    and "\<bar>x - T * of_nat i / 10\<bar> \<le> 1 / 256"
proof -
  define q where "q = T * rat_of_nat i"
  have i': "rat_of_nat i \<le> 10" "0 \<le> rat_of_nat i"
    using i of_nat_mono[of i 10, where 'a = rat] by simp_all
  have "q \<le> 2 ^ 40 * 10" unfolding q_def using T i' by (intro mult_mono) simp_all
  moreover have "0 \<le> q" unfolding q_def using T i' by simp
  ultimately have q: "0 \<le> q" "q \<le> 10995116277760" by simp_all
  then have "\<bar>q\<bar> \<le> 2 ^ 44" by simp
  then obtain r1 where "fl q = Num r1" and "\<bar>r1 - q\<bar> \<le> 2 ^ 44 / 2 ^ 52"
    by (rule fl_abs_numeral) simp
  then have r1: "fl q = Num r1" "\<bar>r1 - q\<bar> \<le> 1 / 256" by simp_all
  have "\<bar>r1\<bar> \<le> 10995116277761" using r1(2) q by linarith
  then have "\<bar>r1 / 10\<bar> \<le> 2 ^ 41" by simp
  then obtain r2 where "fl (r1 / 10) = Num r2" and "\<bar>r2 - r1 / 10\<bar> \<le> 2 ^ 41 / 2 ^ 52"
    by (rule fl_abs_numeral) simp
  then have r2: "fl (r1 / 10) = Num r2" "\<bar>r2 - r1 / 10\<bar> \<le> 1 / 2048" by simp_all
  have r2q: "\<bar>r2 - q / 10\<bar> \<le> 1 / 1024" using r1(2) r2(2) by linarith
  have b': "\<bar>b\<bar> \<le> 1099511627776" using b by simp
  have "\<bar>b + r2\<bar> \<le> 4398046511104" using r2q q b' by linarith
  then have "\<bar>b + r2\<bar> \<le> 2 ^ 42" by simp
  then obtain r3 where "fl (b + r2) = Num r3" and "\<bar>r3 - (b + r2)\<bar> \<le> 2 ^ 42 / 2 ^ 52"
    by (rule fl_abs_numeral) simp
  then have r3: "fl (b + r2) = Num r3" "\<bar>r3 - (b + r2)\<bar> \<le> 1 / 1024" by simp_all
  have "\<bar>r3 + - b\<bar> \<le> 4398046511104" using r3(2) r2q q by linarith
  then have "\<bar>r3 + - b\<bar> \<le> 2 ^ 42" by simp
  then obtain r4 where "fl (r3 + - b) = Num r4" and "\<bar>r4 - (r3 + - b)\<bar> \<le> 2 ^ 42 / 2 ^ 52"
    by (rule fl_abs_numeral) simp
  then have r4: "fl (r3 + - b) = Num r4" "\<bar>r4 - (r3 + - b)\<bar> \<le> 1 / 1024" by simp_all
  have 1: "js_sub (js_add (Num b) (js_div (js_mul (Num T) (Num (of_nat i))) (Num 10))) (Num b)
      = Num r4"
    using r1(1) r2(1) r3(1) r4(1) by (simp add: js_sub_def q_def)
  have "\<bar>r4 - q / 10\<bar> \<le> 1 / 256"
    using r2q r3(2) r4(2) by linarith
  then have 2: "\<bar>r4 - T * of_nat i / 10\<bar> \<le> 1 / 256" by (simp add: q_def)
  from 1 2 that show ?thesis by blast
qed

text \<open>With targets at least 1 ms apart, the rounded timings of consecutive buckets
  differ.\<close>

lemma round_step:
  fixes T x y :: rat and i :: nat
  assumes T: "10 \<le> T" and i: "i < 10"
    and x: "\<bar>x - T * of_nat i / 10\<bar> \<le> 1 / 256"
    and y: "\<bar>y - T * of_nat (Suc i) / 10\<bar> \<le> 1 / 256"
  shows "\<lfloor>x + 1 / 2\<rfloor> < \<lfloor>y + 1 / 2\<rfloor>"
proof -
  define u where "u = T / 10"
  define n where "n = rat_of_nat i"
  have u: "1 \<le> u" using T by (simp add: u_def)
  have n: "0 \<le> n" "n \<le> 9"
    using i of_nat_mono[of i 9, where 'a = rat] by (simp_all add: n_def)
  have x': "\<bar>x - u * n\<bar> \<le> 1 / 256" using x by (simp add: u_def n_def)
  have "T * of_nat (Suc i) / 10 = u * (n + 1)" unfolding u_def n_def by simp
  also have "\<dots> = u * n + u" by (simp add: algebra_simps)
  finally have "T * of_nat (Suc i) / 10 = u * n + u" .
  with y have y': "\<bar>y - (u * n + u)\<bar> \<le> 1 / 256" by (simp only:)
  show ?thesis
  proof (cases "1 + 1 / 128 \<le> u")
    case True
    with x' y' have "x + 1 / 2 + 1 \<le> y + 1 / 2" by linarith
    then have "\<lfloor>x + 1 / 2 + 1\<rfloor> \<le> \<lfloor>y + 1 / 2\<rfloor>" by (rule floor_mono)
    moreover have "\<lfloor>x + 1 / 2 + 1\<rfloor> = \<lfloor>x + 1 / 2\<rfloor> + 1"
      using floor_add_int[of "x + 1 / 2" 1] by simp
    ultimately show ?thesis by linarith
  next
    case False
    then have u2: "u < 1 + 1 / 128" by simp
    have "1 * n \<le> u * n" using u n(1) by (intro mult_right_mono) simp_all
    moreover have "u * n \<le> (1 + 1 / 128) * n" using u2 n(1) by (intro mult_right_mono) simp_all
    ultimately have un: "n \<le> u * n" "u * n \<le> n + n / 128" by (simp_all add: algebra_simps)
    have "of_int (int i) \<le> x + 1 / 2" "x + 1 / 2 < of_int (int i) + 1"
      using x' un n unfolding n_def by (simp_all; linarith)+
    then have fx: "\<lfloor>x + 1 / 2\<rfloor> = int i" by (rule floor_unique)
    have "of_int (int i + 1) \<le> y + 1 / 2" "y + 1 / 2 < of_int (int i + 1) + 1"
      using y' un n u u2 unfolding n_def by (simp_all; linarith)+
    then have fy: "\<lfloor>y + 1 / 2\<rfloor> = int i + 1" by (rule floor_unique)
    show ?thesis unfolding fx fy by simp
  qed
qed

lemma timelineEnd_ge_minimum:
  assumes "timelineEnd H sl opt = Num T" and "minimumTimelineDuration opt = Num d"
  shows "d \<le> T"
  using assms unfolding timelineEnd_def Math_max_def
  by (cases "maxFrameTime H sl") (auto split: if_splits)

text \<open>Halves of integers below \<open>2^53\<close> are doubles.\<close>

lemma fl_half_numeral [simp]:
  "numeral k < (2 ^ 53 :: int) \<Longrightarrow> fl (numeral k / 2) = Num (numeral k / 2)"
  by (rule fl_exact[where m = "numeral k" and z = "- 1"])
    (simp_all add: power_int_minus_divide)

lemma fl_half [simp]: "fl (1 / 2) = Num (1 / 2)"
  by (rule fl_exact[where m = 1 and z = "- 1"]) (simp_all add: power_int_minus_divide)

lemma quick_analyzed: "analyzedFrames example_store quick_speedline = [0, 1, 3]"
  by (simp add: analyzedFrames_def example_store_def quick_speedline_def)

lemma quick_timelineEnd: "timelineEnd example_store quick_speedline (Some (Num 5)) = Num 5"
  by (simp add: timelineEnd_def maxFrameTime_def minimumTimelineDuration_def Math_max_def
      quick_speedline_def)

lemma quick_frames:
  "map (bucket_frame example_store quick_speedline (Some (Num 5))) [1, 2, 3, 4, 5, 6, 7, 8, 9, 10]
   = [Some 0, Some 0, Some 0, Some 0, Some 0, Some 0, Some 0, Some 0, Some 0, Some 3]"
  unfolding bucket_frame_def bucket_target_def quick_analyzed quick_timelineEnd
  by (simp add: frameForTimestamp_def targetTimestamp_def NUMBER_OF_THUMBNAILS_def
      example_store_def quick_speedline_def)

lemma quick_run_succeeds:
  "\<exists>p. underscore_audit enc example_store (Inr quick_speedline) (Some (Num 5)) = Inr p"
proof (rule run_succeeds)
  show "analyzedFrames example_store quick_speedline \<noteq> []"
    by (simp add: quick_analyzed)
  show "isFinite (timelineEnd example_store quick_speedline (Some (Num 5)))"
    by (simp add: quick_timelineEnd)
  have "\<forall>x \<in> set (map (bucket_frame example_store quick_speedline (Some (Num 5)))
      [1, 2, 3, 4, 5, 6, 7, 8, 9, 10]). \<exists>r. x = Some r"
    unfolding quick_frames by simp
  then show "\<forall>i \<in> set [1..<Suc NUMBER_OF_THUMBNAILS].
      \<exists>r. bucket_frame example_store quick_speedline (Some (Num 5)) i = Some r
           \<and> jpeg_sized (getParsedImage (example_store r))"
    unfolding buckets_list using example_image_size by simp
qed

text \<open>
  C5, as the code has it. A successful result has exactly 10 thumbnails. Their timings
  are strictly ascending when the minimum timeline duration is at least 10 (as it is with
  the default of 3000) and neither the beginning of the timeline nor its end is above
  \<open>2^40\<close> ms in magnitude: then consecutive targets are at least 1 ms apart and the
  roundings of the doubles are too small to bring two timings together.
\<close>

theorem timings_ascending:
  assumes "underscore_audit enc H (Inr sl) opt = Inr p"
  shows "\<exists>d. details p = Some d \<and> length (details_items d) = 10
     \<and> (\<forall>b T. beginning sl = Num b \<and> \<bar>b\<bar> \<le> 2 ^ 40
              \<and> timelineEnd H sl opt = Num T \<and> T \<le> 2 ^ 40
              \<and> js_le (Num 10) (minimumTimelineDuration opt) \<longrightarrow>
          (\<forall>k < 9. js_lt (timing (details_items d ! k)) (timing (details_items d ! Suc k))))
     \<and> (\<forall>b T. beginning sl = Num b \<and> \<bar>b\<bar> \<le> 2 ^ 40
              \<and> timelineEnd H sl opt = Num T \<and> T \<le> 2 ^ 40 \<and> opt = None \<longrightarrow>
          (\<forall>k < 9. js_lt (timing (details_items d ! k)) (timing (details_items d ! Suc k))))"
proof -
  from assms have run: "underscore_audit_run enc H (Inr sl) opt
      = (Inr p, snd (underscore_audit_run enc H (Inr sl) opt))"
    by (simp add: underscore_audit_def prod_eq_iff)
  from run_items[OF run] obtain its where
    p: "details p = Some \<lparr>details_type = ''filmstrip'',
                                details_scale = timelineEnd H sl opt,
                                details_items = its\<rparr>"
    and all: "list_all2 (pushed enc H sl (timelineEnd H sl opt) (analyzedFrames H sl))
          [1..<Suc NUMBER_OF_THUMBNAILS] its"
    by auto
  from all have len: "length its = 10"
    by (auto dest: list_all2_lengthD simp: NUMBER_OF_THUMBNAILS_def)
  have asc: "\<forall>k < 9. js_lt (timing (its ! k)) (timing (its ! Suc k))"
    if b: "beginning sl = Num b" "\<bar>b\<bar> \<le> 2 ^ 40"
      and T: "timelineEnd H sl opt = Num T" "T \<le> 2 ^ 40"
      and min: "js_le (Num 10) (minimumTimelineDuration opt)" for b T
  proof (intro allI impI)
    fix k :: nat
    assume k: "k < 9"
    have tm: "map timing its =
        map (\<lambda>i. Math_round (js_sub (targetTimestamp sl (Num T) i) (beginning sl)))
          [1..<Suc NUMBER_OF_THUMBNAILS]"
      using pushed_timings[OF all] by (simp add: T(1))
    from T(1) min have "isFinite (minimumTimelineDuration opt)"
      unfolding timelineEnd_def Math_max_def
      by (cases "maxFrameTime H sl"; cases "minimumTimelineDuration opt") (auto split: if_splits)
    then obtain d where d: "minimumTimelineDuration opt = Num d"
      by (cases "minimumTimelineDuration opt") simp_all
    with min timelineEnd_ge_minimum[OF T(1) d] have T10: "10 \<le> T" by simp
    then have T0: "0 \<le> T" by simp
    have nth: "timing (its ! j) =
        Math_round (js_sub (js_add (Num b)
          (js_div (js_mul (Num T) (Num (of_nat (Suc j)))) (Num 10))) (Num b))"
      if "j < 10" for j
    proof -
      have "timing (its ! j) = map timing its ! j"
        using that len by simp
      also have "\<dots> = Math_round (js_sub (targetTimestamp sl (Num T) (Suc j)) (beginning sl))"
        unfolding tm using that by (simp add: NUMBER_OF_THUMBNAILS_def nth_upt del: upt_Suc)
      finally show ?thesis
        by (simp add: targetTimestamp_def NUMBER_OF_THUMBNAILS_def b(1))
    qed
    have "Suc k \<le> 10" "Suc (Suc k) \<le> 10" "Suc k < 10" using k by simp_all
    from timing_error[OF T0 T(2) b(2) this(1)] obtain x where
      x: "js_sub (js_add (Num b) (js_div (js_mul (Num T) (Num (of_nat (Suc k)))) (Num 10)))
            (Num b) = Num x"
        "\<bar>x - T * of_nat (Suc k) / 10\<bar> \<le> 1 / 256"
      by blast
    from timing_error[OF T0 T(2) b(2) \<open>Suc (Suc k) \<le> 10\<close>] obtain y where
      y: "js_sub (js_add (Num b) (js_div (js_mul (Num T) (Num (of_nat (Suc (Suc k))))) (Num 10)))
            (Num b) = Num y"
        "\<bar>y - T * of_nat (Suc (Suc k)) / 10\<bar> \<le> 1 / 256"
      by blast
    have tk: "timing (its ! k) = Num (of_int \<lfloor>x + 1 / 2\<rfloor>)"
      using nth[of k] k x(1) by simp
    have tk1: "timing (its ! Suc k) = Num (of_int \<lfloor>y + 1 / 2\<rfloor>)"
      using nth[of "Suc k"] k y(1) by simp
    have "\<lfloor>x + 1 / 2\<rfloor> < \<lfloor>y + 1 / 2\<rfloor>"
      using T10 \<open>Suc k < 10\<close> x(2) y(2) by (rule round_step)
    then show "js_lt (timing (its ! k)) (timing (its ! Suc k))"
      unfolding tk tk1 by simp
  qed
  have "js_le (Num 10) (minimumTimelineDuration None)"
    by (simp add: minimumTimelineDuration_def)
  with asc p len show ?thesis by auto
qed

theorem timings_ascending_witness:
  "\<exists>p. underscore_audit example_encoder example_store (Inr example_speedline) None = Inr p
     \<and> beginning example_speedline = Num 0 \<and> \<bar>0 :: rat\<bar> \<le> 2 ^ 40
     \<and> timelineEnd example_store example_speedline None = Num 3000 \<and> (3000 :: rat) \<le> 2 ^ 40
     \<and> js_le (Num 10) (minimumTimelineDuration None)
     \<and> (\<exists>d. details p = Some d \<and> length (details_items d) = 10
          \<and> js_lt (timing (details_items d ! 0)) (timing (details_items d ! Suc 0)))"
proof -
  from example_run_succeeds obtain p where
    p: "underscore_audit example_encoder example_store (Inr example_speedline) None = Inr p"
    by blast
  have b: "beginning example_speedline = Num 0" "\<bar>0 :: rat\<bar> \<le> 2 ^ 40"
    by (simp_all add: example_speedline_def)
  have T: "timelineEnd example_store example_speedline None = Num 3000"
    "(3000 :: rat) \<le> 2 ^ 40"
    by (simp_all add: example_timelineEnd)
  have min: "js_le (Num 10) (minimumTimelineDuration None)"
    by (simp add: minimumTimelineDuration_def)
  from timings_ascending[OF p] b T min obtain d where
    "details p = Some d" "length (details_items d) = 10"
    "\<forall>k < 9. js_lt (timing (details_items d ! k)) (timing (details_items d ! Suc k))"
    by blast
  then have "details p = Some d \<and> length (details_items d) = 10
          \<and> js_lt (timing (details_items d ! 0)) (timing (details_items d ! Suc 0))"
    by simp
  with p b T min show ?thesis by blast
qed

text \<open>The claim for every timeline and every configuration fails: with a minimum
  timeline duration of 5 ms and a page complete after 3 ms the build succeeds and the
  timings are 1, 1, 2, 2, 3, 3, 4, 4, 5, 5.\<close>

theorem timings_ascending_counterexample:
  "product_timings
     (underscore_audit example_encoder example_store (Inr quick_speedline) (Some (Num 5)))
   = [Num 1, Num 1, Num 2, Num 2, Num 3, Num 3, Num 4, Num 4, Num 5, Num 5]
   \<and> \<not> js_lt (Num 1) (Num 1)"
proof -
  from quick_run_succeeds obtain p where
    p: "underscore_audit example_encoder example_store (Inr quick_speedline) (Some (Num 5))
        = Inr p"
    by blast
  have b0: "beginning quick_speedline = Num 0"
    by (simp add: quick_speedline_def)
  have "product_timings (Inr p)
      = [Num 1, Num 1, Num 2, Num 2, Num 3, Num 3, Num 4, Num 4, Num 5, Num 5]"
    unfolding run_timings[OF p] buckets_list bucket_target_def quick_timelineEnd b0
    by (simp add: targetTimestamp_def NUMBER_OF_THUMBNAILS_def js_sub_def b0)
  with p show ?thesis by simp
qed

end
